theory Spec2Isabelle
  imports
    Complex_Main
    "HOL-Library.Char_ord"
    "HOL-Library.List_Lexorder"
    "HOL-Library.Log_Nat"
    "HOL-Library.Monad_Syntax"
    "HOL-Library.Sublist"
begin

chapter \<open>video_transcriber.py: cost ledger, processed-set record, splitter, orchestrator\<close>

text \<open>
  Conventions of the embedding.
  \<^item> A Python float is the rational it denotes (\<^typ>\<open>rat\<close>). The float operations of
    \<open>split_video_by_size\<close> (one division and the products that give the time windows)
    round their exact result to the nearest double, ties to even (\<open>round_double\<close>
    below); the exponent range is not bounded, so overflow to infinity and subnormal
    numbers are not modelled. The only float operation on a cost is the addition of
    \<open>add_cost\<close>, which is exact here.
  \<^item> Python ints are \<^typ>\<open>int\<close> (byte sizes) or \<^typ>\<open>nat\<close> (loop indices, retry
    delays, \<open>chunk_duration\<close>).
  \<^item> Files on disk are values; a function that writes takes the old disk state and
    returns the new one. Failures of the operating system (a full disk, a permission
    error) are not modelled: \<open>open\<close>, \<open>json.dump\<close> and \<open>os.remove\<close> do what
    their documentation says.
  \<^item> The interpreter's recursion limit is modelled where the source recurses without a
    bound of its own (\<open>split_video_by_size\<close>).
  \<^item> \<open>print\<close> calls are dropped.
\<close>

section \<open>Double-precision rounding\<close>

text \<open>Rounding of a rational to the nearest integer, ties to the even one.\<close>

definition round_half_even :: "rat \<Rightarrow> int" where
  "round_half_even x =
     (let f = \<lfloor>x\<rfloor>; r = x - of_int f
      in if r < 1 / 2 then f else if 1 / 2 < r then f + 1 else if even f then f else f + 1)"

text \<open>
  The binary exponent of a positive rational \<open>x\<close>: the \<open>e\<close> with
  \<open>2\<^sup>e \<le> x < 2\<^sup>e\<^sup>+\<^sup>1\<close>, found from the bit lengths of numerator and denominator.
\<close>

definition binary_exponent :: "rat \<Rightarrow> int" where
  "binary_exponent x =
     (let (a, b) = quotient_of x; e = bitlen a - bitlen b
      in if 2 powi e \<le> x then e else e - 1)"

text \<open>
  The double nearest to \<open>x\<close>: a double with binary exponent \<open>e\<close> is a multiple of
  \<open>2\<^sup>e\<^sup>-\<^sup>5\<^sup>2\<close> (53 significant bits).
\<close>

definition round_double :: "rat \<Rightarrow> rat" where
  "round_double x =
     (if x = 0 then 0
      else (let ulp = 2 powi (binary_exponent \<bar>x\<bar> - 52)
            in of_int (round_half_even (x / ulp)) * ulp))"

section \<open>The durable cost ledger: class \<open>TotalCostTracker\<close>\<close>

text \<open>
  The JSON object read back by \<open>json.load\<close>. Both keys are read with
  \<open>data.get(key, default)\<close>, so either may be missing.
\<close>

record ledger_json =
  json_total_cost :: "rat option"
  json_last_updated :: "string option"

text \<open>
  The file \<open>total_cost.json\<close>: absent, empty (what \<open>open(..., 'w')\<close> leaves before
  anything is written; \<open>json.load\<close> raises on it), or holding a JSON object.
\<close>

datatype ledger_file = No_File | Empty_File | Json_File ledger_json

record TotalCostTracker =
  total_cost :: rat
  last_updated :: string

text \<open>
  \<open>load\<close>: nothing happens when the file does not exist; an exception of
  \<open>json.load\<close> is caught and printed, and the fields keep their values.
\<close>

definition load :: "TotalCostTracker \<Rightarrow> ledger_file \<Rightarrow> TotalCostTracker" where
  "load self disk =
     (case disk of
        No_File \<Rightarrow> self
      | Empty_File \<Rightarrow> self
      | Json_File data \<Rightarrow>
          self\<lparr>total_cost := (case json_total_cost data of None \<Rightarrow> 0 | Some c \<Rightarrow> c),
               last_updated := (case json_last_updated data of None \<Rightarrow> [] | Some s \<Rightarrow> s)\<rparr>)"

text \<open>\<open>__init__\<close>: zero the fields, then \<open>load\<close>.\<close>

definition TotalCostTracker_init :: "ledger_file \<Rightarrow> TotalCostTracker" where
  "TotalCostTracker_init disk = load \<lparr>total_cost = 0, last_updated = []\<rparr> disk"

text \<open>
  \<open>save\<close> opens the ledger file itself in mode \<open>'w'\<close>, which truncates it, and
  \<open>json.dump\<close>s the record into it; the \<open>with\<close> block closes the file.
  \<open>save_writes\<close> lists the contents the file passes through, in order: first the
  truncated file, then the new record. \<open>now\<close> is the clock reading taken inside
  \<open>save\<close>.
\<close>

definition save_writes :: "TotalCostTracker \<Rightarrow> string \<Rightarrow> ledger_file list" where
  "save_writes self now =
     [Empty_File,
      Json_File \<lparr>json_total_cost = Some (total_cost self), json_last_updated = Some now\<rparr>]"

definition save :: "TotalCostTracker \<Rightarrow> string \<Rightarrow> ledger_file \<Rightarrow> ledger_file" where
  "save self now disk = last (disk # save_writes self now)"

text \<open>
  The ledger file as a process that dies after \<open>k\<close> of the writes of \<open>save\<close> leaves
  it (\<open>k = 0\<close>: before \<open>open\<close>; \<open>k = 1\<close>: after \<open>open\<close>, before the record reaches
  the file; \<open>k \<ge> 2\<close>: after the file is closed).
\<close>

definition save_interrupted :: "nat \<Rightarrow> TotalCostTracker \<Rightarrow> string \<Rightarrow> ledger_file \<Rightarrow> ledger_file" where
  "save_interrupted k self now disk = (disk # save_writes self now) ! min k 2"

text \<open>
  \<open>add_cost\<close>. \<open>now1\<close> is the clock reading of \<open>add_cost\<close>, \<open>now2\<close> the later one of
  \<open>save\<close>.
\<close>

definition add_cost ::
  "TotalCostTracker \<Rightarrow> rat \<Rightarrow> string \<Rightarrow> string \<Rightarrow> ledger_file \<Rightarrow> TotalCostTracker \<times> ledger_file" where
  "add_cost self cost now1 now2 disk =
     (let self1 = self\<lparr>total_cost := total_cost self + cost\<rparr>;
          self2 = self1\<lparr>last_updated := now1\<rparr>
      in (self2, save self2 now2 disk))"

definition get_total :: "TotalCostTracker \<Rightarrow> rat" where
  "get_total self = total_cost self"

text \<open>
  The life of a deployment, as far as the ledger goes: the module creates the global
  \<open>total_cost_tracker = TotalCostTracker()\<close> when a process starts, and
  \<open>process_video\<close> calls \<open>total_cost_tracker.add_cost(custo_atual)\<close> at the end of
  each file. Nothing else in the source writes \<open>total_cost\<close> or the ledger file.
\<close>






text \<open>The durable total: what a freshly started process reads from the ledger file.\<close>

definition durable_total :: "ledger_file \<Rightarrow> rat" where
  "durable_total disk = get_total (TotalCostTracker_init disk)"

section \<open>The processed-set record\<close>

text \<open>
  The file \<open>processed_video_ids.json\<close>: absent, not decodable as JSON, or a JSON array
  of strings (the only thing \<open>save_processed_ids\<close> writes).
\<close>

datatype ids_file = Ids_Missing | Ids_Undecodable | Ids_Json "string list"

definition load_processed_ids :: "ids_file \<Rightarrow> string set" where
  "load_processed_ids f =
     (case f of
        Ids_Missing \<Rightarrow> {}
      | Ids_Undecodable \<Rightarrow> {}
      | Ids_Json id_list \<Rightarrow> set id_list)"

text \<open>
  \<open>sorted(list(processed_ids))\<close>: Python compares strings lexicographically by code
  point, which is the order of \<^typ>\<open>string\<close> here.
\<close>

definition save_processed_ids :: "string set \<Rightarrow> ids_file \<Rightarrow> ids_file" where
  "save_processed_ids processed_ids f = Ids_Json (sorted_list_of_set processed_ids)"

section \<open>Files, the encoder and the splitter: \<open>split_video_by_size\<close>\<close>

text \<open>
  Paths. \<open>Part i n\<close> is \<open>TEMP_DIR / "part_{i}_of_{n}.mp4"\<close>, \<open>Compressed_Part i n\<close> is
  \<open>TEMP_DIR / "compressed_part_{i}_of_{n}.mp4"\<close>, and \<open>Ext s\<close> is any path that is
  neither (a downloaded video).
\<close>

datatype path = Ext string | Part nat nat | Compressed_Part nat nat

text \<open>
  What the source reads of a file: \<open>os.path.getsize\<close>, and the \<open>duration\<close> of
  \<open>VideoFileClip(path)\<close>, which is \<open>None\<close> here when \<open>VideoFileClip\<close> raises (the
  file is not a video it can open).
\<close>

record media =
  file_size :: int
  video_duration :: "rat option"

type_synonym filesystem = "path \<Rightarrow> media option"

text \<open>
  The two calls of \<open>subclip.write_videofile\<close>: bitrate 1000k with crf 28, then bitrate
  500k with crf 32. A call writes a file, returns without writing one (the source
  checks \<open>os.path.exists\<close> after each call), or raises. The encoder is a parameter:
  its result may depend on the profile, on the clip opened and on the time window.
\<close>

datatype profile = First_Pass | Second_Pass

datatype write_result = Written media | Not_Written | Write_Error

type_synonym encoder = "profile \<Rightarrow> media \<Rightarrow> rat \<Rightarrow> rat \<Rightarrow> write_result"

definition size_limit :: int where
  "size_limit = 15 * 1024 * 1024"

definition MAX_FILE_SIZE :: int where
  "MAX_FILE_SIZE = 25 * 1024 * 1024"

text \<open>
  \<open>num_chunks = math.ceil(total_size / (15 * 1024 * 1024))\<close>: the quotient of the two
  ints is a float, the ceiling of a float is an int.
\<close>

definition num_chunks_of :: "int \<Rightarrow> nat" where
  "num_chunks_of total_size =
     nat \<lceil>round_double ((of_int total_size :: rat) / of_int size_limit)\<rceil>"

text \<open>
  The time window \<open>(start_time, end_time)\<close> of pass \<open>i\<close> of the loop. \<open>total_duration\<close>
  is a float; the division and the two products are float operations.
\<close>

definition part_window :: "rat \<Rightarrow> nat \<Rightarrow> nat \<Rightarrow> rat \<times> rat" where
  "part_window total_duration num_chunks i =
     (let part_duration = round_double (total_duration / of_nat num_chunks);
          start_time = round_double (of_nat i * part_duration);
          end_time = min (round_double (of_nat (i + 1) * part_duration)) total_duration
      in (start_time, end_time))"

definition store :: "filesystem \<Rightarrow> path \<Rightarrow> write_result \<Rightarrow> filesystem" where
  "store fs p r = (case r of Written f \<Rightarrow> fs(p \<mapsto> f) | Not_Written \<Rightarrow> fs | Write_Error \<Rightarrow> fs)"

text \<open>
  One pass of the loop body, up to the point where it appends to \<open>parts\<close>: it leaves
  the part out (the first pass raised, or wrote no file), appends one path, or asks for
  the recursive call on the compressed file.
\<close>

datatype part_outcome =
    Skip_Part filesystem
  | Keep_Part filesystem path
  | Split_Again filesystem path

definition encode_part :: "encoder \<Rightarrow> media \<Rightarrow> rat \<Rightarrow> nat \<Rightarrow> nat \<Rightarrow> filesystem \<Rightarrow> part_outcome" where
  "encode_part write_videofile video total_duration num_chunks i fs =
     (let (start_time, end_time) = part_window total_duration num_chunks i;
          part_path = Part (i + 1) num_chunks;
          first = write_videofile First_Pass video start_time end_time;
          fs1 = store fs part_path first
      in if first = Write_Error then Skip_Part fs
         else
           (case fs1 part_path of
              None \<Rightarrow> Skip_Part fs1
            | Some part \<Rightarrow>
                if file_size part > size_limit then
                  (let compressed_path = Compressed_Part (i + 1) num_chunks;
                       second = write_videofile Second_Pass video start_time end_time;
                       fs2 = store fs1 compressed_path second
                   in if second = Write_Error then Keep_Part fs1 part_path
                      else
                        (case fs2 compressed_path of
                           None \<Rightarrow> Keep_Part fs2 part_path
                         | Some compressed \<Rightarrow>
                             (let fs3 = fs2(part_path := None)
                              in if file_size compressed > size_limit
                                 then Split_Again fs3 compressed_path
                                 else Keep_Part fs3 compressed_path)))
                else Keep_Part fs1 part_path))"

text \<open>
  \<open>split_video_by_size\<close> calls itself from inside its loop, and nothing in the source
  bounds the depth of these calls; the interpreter does. \<open>stack\<close> is the number of
  nested calls of \<open>split_video_by_size\<close> that still fit below the running one. The
  call that no longer fits raises \<open>RecursionError\<close>, an \<open>Exception\<close>, which one of
  the \<open>except Exception\<close> clauses of the function catches; which one depends on where
  in the called function the interpreter gives up, so it is a parameter:
  \<open>overflow fs path = None\<close> when the error is raised at the call itself and reaches the
  clause around the second compression pass in the caller, which prints it and goes on
  to \<open>parts.append(str(part_path))\<close> with the compressed file;
  \<open>overflow fs path = Some (subparts, fs')\<close> when the error is raised further inside the
  called function and caught by its own clauses, so that the call returns \<open>subparts\<close>
  (\<open>[]\<close> from the outermost clause) and leaves the files \<open>fs'\<close>.
\<close>

type_synonym overflow = "filesystem \<Rightarrow> path \<Rightarrow> (path list \<times> filesystem) option"

text \<open>
  \<open>Enter fs video_path chunk_duration\<close> is a call of the function;
  \<open>Iterate video total_duration num_chunks i chunk_duration fs parts\<close> is its loop
  about to run pass \<open>i\<close>, with the clip opened at entry. The result is the list
  returned and the files left behind.
\<close>

datatype split_task =
    Enter filesystem path nat
  | Iterate media rat nat nat nat filesystem "path list"

function split_task_run :: "encoder \<Rightarrow> overflow \<Rightarrow> nat \<Rightarrow> split_task \<Rightarrow> path list \<times> filesystem" where
  "split_task_run write_videofile overflow stack (Enter fs video_path chunk_duration) =
     (case fs video_path of
        None \<Rightarrow> ([], fs)
      | Some video \<Rightarrow>
          (case video_duration video of
             None \<Rightarrow> ([], fs)
           | Some total_duration \<Rightarrow>
               if file_size video \<le> size_limit then ([video_path], fs)
               else split_task_run write_videofile overflow stack
                      (Iterate video total_duration (num_chunks_of (file_size video)) 0
                         chunk_duration fs [])))"
| "split_task_run write_videofile overflow stack
     (Iterate video total_duration num_chunks i chunk_duration fs parts) =
     (if num_chunks \<le> i then (parts, fs)
      else
        (case encode_part write_videofile video total_duration num_chunks i fs of
           Skip_Part fs' \<Rightarrow>
             split_task_run write_videofile overflow stack
               (Iterate video total_duration num_chunks (i + 1) chunk_duration fs' parts)
         | Keep_Part fs' part_path \<Rightarrow>
             split_task_run write_videofile overflow stack
               (Iterate video total_duration num_chunks (i + 1) chunk_duration fs'
                  (parts @ [part_path]))
         | Split_Again fs' part_path \<Rightarrow>
             (case stack of
                0 \<Rightarrow>
                  (case overflow fs' part_path of
                     None \<Rightarrow>
                       split_task_run write_videofile overflow stack
                         (Iterate video total_duration num_chunks (i + 1) chunk_duration fs'
                            (parts @ [part_path]))
                   | Some (subparts, fs'') \<Rightarrow>
                       split_task_run write_videofile overflow stack
                         (Iterate video total_duration num_chunks (i + 1) chunk_duration fs''
                            (parts @ subparts)))
              | Suc below \<Rightarrow>
                  (case split_task_run write_videofile overflow below
                          (Enter fs' part_path (chunk_duration div 2)) of
                     (subparts, fs'') \<Rightarrow>
                       split_task_run write_videofile overflow stack
                         (Iterate video total_duration num_chunks (i + 1) chunk_duration fs''
                            (parts @ subparts))))))"
  by pat_completeness auto
termination
  by (relation "measures
        [\<lambda>(write_videofile, overflow, stack, task). stack,
         \<lambda>(write_videofile, overflow, stack, task).
            (case task of Enter fs video_path chunk_duration \<Rightarrow> 1
             | Iterate video total_duration num_chunks i chunk_duration fs parts \<Rightarrow> 0),
         \<lambda>(write_videofile, overflow, stack, task).
            (case task of Enter fs video_path chunk_duration \<Rightarrow> 0
             | Iterate video total_duration num_chunks i chunk_duration fs parts \<Rightarrow> num_chunks - i)]")
     auto

declare split_task_run.simps [simp del]

definition split_video_by_size ::
  "encoder \<Rightarrow> overflow \<Rightarrow> nat \<Rightarrow> filesystem \<Rightarrow> path \<Rightarrow> nat \<Rightarrow> path list \<times> filesystem" where
  "split_video_by_size write_videofile overflow stack fs video_path chunk_duration =
     split_task_run write_videofile overflow stack (Enter fs video_path chunk_duration)"

section \<open>Retrying chat calls: \<open>generate_sales_analysis\<close>\<close>

text \<open>What a call of an external service does: it returns a value or raises.\<close>

datatype 'a response = Returned 'a | Raised string

text \<open>
  What the process does to the outside, in order: a transcription request for the file
  at a path, a chat completion request, a \<open>time.sleep\<close> of so many seconds.
\<close>

datatype io_event = Transcribe_Call path | Chat_Call | Sleep nat








section \<open>Strings\<close>

text \<open>
  A Python \<open>str\<close> is a list of code points; those of the source's messages are below
  256, so \<^typ>\<open>string\<close> holds them (\<open>CHR 0xE3\<close> is a with tilde, \<open>CHR 0xE7\<close> is c
  with cedilla, \<open>CHR 0xF3\<close> is o with acute).
\<close>

fun str_nat :: "nat \<Rightarrow> string" where
  "str_nat n = (if n < 10 then [char_of (48 + n)] else str_nat (n div 10) @ [char_of (48 + n mod 10)])"

declare str_nat.simps [simp del]

definition lower_char :: "char \<Rightarrow> char" where
  "lower_char c = (let n = (of_char c :: nat) in if 65 \<le> n \<and> n \<le> 90 then char_of (n + 32) else c)"

text \<open>\<open>str.lower()\<close>, on the ASCII letters.\<close>

definition lower :: "string \<Rightarrow> string" where
  "lower s = map lower_char s"

text \<open>\<open>sub in s\<close>, \<open>s.startswith(p)\<close> and \<open>sep.join(xs)\<close>.\<close>

definition str_contains :: "string \<Rightarrow> string \<Rightarrow> bool" where
  "str_contains sub s = sublist sub s"

definition startswith :: "string \<Rightarrow> string \<Rightarrow> bool" where
  "startswith s p = prefix p s"

fun join :: "string \<Rightarrow> string list \<Rightarrow> string" where
  "join sep [] = []"
| "join sep [x] = x"
| "join sep (x # y # ys) = x @ sep @ join sep (y # ys)"

section \<open>The orchestrator: \<open>transcribe_audio\<close>\<close>

text \<open>
  The state the orchestrator works on: the files, and what the process has done to the
  outside so far. The usage counters (\<open>transcription_counter\<close>, \<open>token_counter\<close>) are
  left out: no branch of the functions below reads them.
\<close>

record world =
  files :: filesystem
  trace :: "io_event list"

text \<open>
  The transcription service is a parameter: \<open>create history f\<close> is what
  \<open>openai.audio.transcriptions.create\<close> does for the file \<open>f\<close> after the events
  \<open>history\<close>.
\<close>

type_synonym transcriber = "io_event list \<Rightarrow> media \<Rightarrow> string response"

text \<open>
  \<open>with open(p, 'rb') as video_file: openai.audio.transcriptions.create(...)\<close>: one
  request, unless \<open>open\<close> raises first.
\<close>

definition transcribe_file :: "transcriber \<Rightarrow> world \<Rightarrow> path \<Rightarrow> string response \<times> world" where
  "transcribe_file create w p =
     (case files w p of
        None \<Rightarrow> (Raised ''FileNotFoundError'', w)
      | Some f \<Rightarrow> (create (trace w) f, w\<lparr>trace := trace w @ [Transcribe_Call p]\<rparr>))"

text \<open>\<open>if os.path.exists(p): os.remove(p)\<close>\<close>

definition remove_if_exists :: "world \<Rightarrow> path \<Rightarrow> world" where
  "remove_if_exists w p = (case files w p of None \<Rightarrow> w | Some f \<Rightarrow> w\<lparr>files := (files w)(p := None)\<rparr>)"

definition chunk_not_found :: "nat \<Rightarrow> string" where
  "chunk_not_found n = ''[Chunk '' @ str_nat n @ '' n'' @ [CHR 0xE3] @ ''o encontrado]''"

definition subchunk_not_found :: "nat \<Rightarrow> string" where
  "subchunk_not_found n = ''[Subchunk '' @ str_nat n @ '' n'' @ [CHR 0xE3] @ ''o encontrado]''"

definition part_error :: "nat \<Rightarrow> string" where
  "part_error n = ''[Erro na transcri'' @ [CHR 0xE7, CHR 0xE3] @ ''o da parte '' @ str_nat n @ '']''"

definition subpart_error :: "nat \<Rightarrow> nat \<Rightarrow> string" where
  "subpart_error n m =
     ''[Erro na transcri'' @ [CHR 0xE7, CHR 0xE3] @ ''o da parte '' @ str_nat n @ ''.'' @ str_nat m @ '']''"

text \<open>
  The inner loop \<open>for j, small_chunk in enumerate(smaller_chunks)\<close> of the token-limit
  branch, for the chunk of index \<open>i\<close>.
\<close>

fun transcribe_small_chunks ::
  "transcriber \<Rightarrow> nat \<Rightarrow> nat \<Rightarrow> path list \<Rightarrow> string list \<Rightarrow> world \<Rightarrow> string list \<times> world" where
  "transcribe_small_chunks create i j [] transcripts w = (transcripts, w)"
| "transcribe_small_chunks create i j (small_chunk # rest) transcripts w =
     (case files w small_chunk of
        None \<Rightarrow>
          transcribe_small_chunks create i (j + 1) rest (transcripts @ [subchunk_not_found (j + 1)]) w
      | Some f \<Rightarrow>
          (case transcribe_file create w small_chunk of
             (Returned text, w1) \<Rightarrow>
               transcribe_small_chunks create i (j + 1) rest (transcripts @ [text])
                 (remove_if_exists w1 small_chunk)
           | (Raised e2, w1) \<Rightarrow>
               transcribe_small_chunks create i (j + 1) rest
                 (transcripts @ [subpart_error (i + 1) (j + 1)])
                 (remove_if_exists w1 small_chunk)))"

text \<open>
  One pass of the loop \<open>for i, chunk_path in enumerate(chunks)\<close>. \<open>chunk_duration\<close> is
  the local variable of \<open>transcribe_audio\<close> (600).
\<close>

definition transcribe_chunk ::
  "encoder \<Rightarrow> overflow \<Rightarrow> nat \<Rightarrow> transcriber \<Rightarrow> nat \<Rightarrow> nat \<Rightarrow> path \<Rightarrow> string list \<Rightarrow> world \<Rightarrow>
   string list \<times> world" where
  "transcribe_chunk write_videofile overflow stack create chunk_duration i chunk_path transcripts w =
     (case files w chunk_path of
        None \<Rightarrow> (transcripts @ [chunk_not_found (i + 1)], w)
      | Some f \<Rightarrow>
          (case transcribe_file create w chunk_path of
             (Returned text, w1) \<Rightarrow> (transcripts @ [text], remove_if_exists w1 chunk_path)
           | (Raised e, w1) \<Rightarrow>
               if str_contains ''token limit'' (lower e) then
                 (let (smaller_chunks, fs') =
                        split_video_by_size write_videofile overflow stack (files w1) chunk_path
                          (chunk_duration div 2);
                      (transcripts1, w2) =
                        transcribe_small_chunks create i 0 smaller_chunks transcripts (w1\<lparr>files := fs'\<rparr>)
                  in (transcripts1, remove_if_exists w2 chunk_path))
               else (transcripts @ [part_error (i + 1)], remove_if_exists w1 chunk_path)))"

fun transcribe_chunks ::
  "encoder \<Rightarrow> overflow \<Rightarrow> nat \<Rightarrow> transcriber \<Rightarrow> nat \<Rightarrow> nat \<Rightarrow> path list \<Rightarrow> string list \<Rightarrow> world \<Rightarrow>
   string list \<times> world" where
  "transcribe_chunks write_videofile overflow stack create chunk_duration i [] transcripts w =
     (transcripts, w)"
| "transcribe_chunks write_videofile overflow stack create chunk_duration i (chunk_path # rest) transcripts w =
     (let (transcripts1, w1) =
            transcribe_chunk write_videofile overflow stack create chunk_duration i chunk_path transcripts w
      in transcribe_chunks write_videofile overflow stack create chunk_duration (i + 1) rest transcripts1 w1)"

text \<open>
  \<open>transcribe_audio\<close>. Its \<open>except\<close> clause prints and re-raises, so an exception is the
  value \<open>Raised\<close>. \<open>stack\<close> is the number of nested calls of \<open>split_video_by_size\<close>
  that fit below a call made from here.
\<close>

definition transcribe_audio ::
  "encoder \<Rightarrow> overflow \<Rightarrow> nat \<Rightarrow> transcriber \<Rightarrow> world \<Rightarrow> path \<Rightarrow> string response \<times> world" where
  "transcribe_audio write_videofile overflow stack create w video_path =
     (case files w video_path of
        None \<Rightarrow> (Raised ''FileNotFoundError'', w)
      | Some video \<Rightarrow>
          (case video_duration video of
             None \<Rightarrow> (Raised ''VideoFileClip'', w)
           | Some duration \<Rightarrow>
               (let chunk_duration = 600 in
                if duration \<le> of_nat chunk_duration then transcribe_file create w video_path
                else
                  (let (chunks, fs') =
                         split_video_by_size write_videofile overflow stack (files w) video_path
                           chunk_duration;
                       (transcripts, w') =
                         transcribe_chunks write_videofile overflow stack create chunk_duration 0
                           chunks [] (w\<lparr>files := fs'\<rparr>)
                   in (Returned (join '' '' transcripts), w')))))"

section \<open>The file-level operation: \<open>process_video\<close>, up to \<open>full_transcript\<close>\<close>

definition failure_marker :: string where
  "failure_marker =
     '' [Falha na transcri'' @ [CHR 0xE7, CHR 0xE3] @ ''o. Continua na pr'' @ [CHR 0xF3] @ ''xima parte.] ''"

text \<open>
  What happened to one part in the loop of \<open>process_video\<close>. The source keeps only
  \<open>all_transcripts\<close>; this record of the passes is kept beside it to state properties.
\<close>

datatype part_result = Part_Missing | Part_Failed string | Part_Transcribed string

text \<open>One pass of the loop \<open>for i, part in enumerate(parts, 1)\<close>.\<close>

definition transcribe_part ::
  "encoder \<Rightarrow> overflow \<Rightarrow> nat \<Rightarrow> transcriber \<Rightarrow> path \<Rightarrow> path \<Rightarrow> string list \<times> part_result list \<times> world \<Rightarrow>
   string list \<times> part_result list \<times> world" where
  "transcribe_part write_videofile overflow stack create video_path part state =
     (case state of (all_transcripts, results, w) \<Rightarrow>
        (case files w part of
           None \<Rightarrow> (all_transcripts, results @ [Part_Missing], w)
         | Some f \<Rightarrow>
             (let (r, w1) = transcribe_audio write_videofile overflow stack create w part;
                  w2 = (if part \<noteq> video_path then remove_if_exists w1 part else w1)
              in (case r of
                    Returned transcript \<Rightarrow>
                      (all_transcripts @ [transcript], results @ [Part_Transcribed transcript], w2)
                  | Raised e \<Rightarrow>
                      (all_transcripts @ [failure_marker], results @ [Part_Failed e], w2)))))"

fun transcribe_parts ::
  "encoder \<Rightarrow> overflow \<Rightarrow> nat \<Rightarrow> transcriber \<Rightarrow> path \<Rightarrow> path list \<Rightarrow> string list \<times> part_result list \<times> world \<Rightarrow>
   string list \<times> part_result list \<times> world" where
  "transcribe_parts write_videofile overflow stack create video_path [] state = state"
| "transcribe_parts write_videofile overflow stack create video_path (part # rest) state =
     transcribe_parts write_videofile overflow stack create video_path rest
       (transcribe_part write_videofile overflow stack create video_path part state)"

datatype file_error =
    File_Not_Found
  | Transcription_Raised string
  | Split_Failed
  | Total_Loss

text \<open>
  \<open>process_video\<close> from its \<open>try\<close> to \<open>full_transcript\<close>, and its \<open>finally\<close>, which
  removes the video. The result is the error raised or \<open>full_transcript\<close>, the record
  of the parts, and the state left. The steps after \<open>full_transcript\<close> (analysis,
  upload, cost) are not part of this function here. \<open>stack\<close> is the number of nested
  calls of \<open>split_video_by_size\<close> that fit below a call made from here; a call made
  from \<open>transcribe_audio\<close> is one frame deeper.
\<close>

definition process_video ::
  "encoder \<Rightarrow> overflow \<Rightarrow> nat \<Rightarrow> transcriber \<Rightarrow> world \<Rightarrow> path \<Rightarrow>
   (file_error + string) \<times> part_result list \<times> world" where
  "process_video write_videofile overflow stack create w video_path =
     (case files w video_path of
        None \<Rightarrow> (Inl File_Not_Found, [], w)
      | Some f \<Rightarrow>
          if file_size f \<le> MAX_FILE_SIZE then
            (case transcribe_audio write_videofile overflow (stack - 1) create w video_path of
               (Raised e, w1) \<Rightarrow> (Inl (Transcription_Raised e), [], remove_if_exists w1 video_path)
             | (Returned transcript, w1) \<Rightarrow>
                 (Inr (join '' '' [transcript]), [], remove_if_exists w1 video_path))
          else
            (let (parts, fs') = split_video_by_size write_videofile overflow stack (files w) video_path 600
             in if parts = [] then (Inl Split_Failed, [], remove_if_exists (w\<lparr>files := fs'\<rparr>) video_path)
                else
                  (let (all_transcripts, results, w1) =
                         transcribe_parts write_videofile overflow (stack - 1) create video_path parts
                           ([], [], w\<lparr>files := fs'\<rparr>)
                   in if \<not> list_ex (\<lambda>t. \<not> startswith t '' [Falha'') all_transcripts
                      then (Inl Total_Loss, results, remove_if_exists w1 video_path)
                      else (Inr (join '' '' all_transcripts), results, remove_if_exists w1 video_path))))"

section \<open>Predicates and example inputs used in the statements\<close>

text \<open>
  Pass \<open>i\<close> of the loop, run on the files \<open>fs\<close>, leaves a compressed file that is
  still above 15MB, so that the source calls \<open>split_video_by_size\<close> on it.
\<close>

definition splits_again :: "encoder \<Rightarrow> media \<Rightarrow> rat \<Rightarrow> nat \<Rightarrow> filesystem \<Rightarrow> nat \<Rightarrow> bool" where
  "splits_again write_videofile video total_duration num_chunks fs i =
     (case encode_part write_videofile video total_duration num_chunks i fs of
        Skip_Part fs' \<Rightarrow> False
      | Keep_Part fs' part_path \<Rightarrow> False
      | Split_Again fs' part_path \<Rightarrow> True)"

text \<open>The two paths pass \<open>i\<close> of the loop writes to.\<close>

definition touched :: "nat \<Rightarrow> nat \<Rightarrow> path set" where
  "touched i num_chunks = {Part (i + 1) num_chunks, Compressed_Part (i + 1) num_chunks}"

text \<open>
  What can be said of a returned path \<open>p\<close> and the file \<open>m\<close> at it: the file is at most
  15MB, or \<open>p\<close> is the first-pass part of a window whose second pass raised or wrote
  no file.
\<close>

definition acceptable :: "encoder \<Rightarrow> media \<Rightarrow> rat \<Rightarrow> nat \<Rightarrow> path \<Rightarrow> media \<Rightarrow> bool" where
  "acceptable write_videofile video total_duration num_chunks p m \<longleftrightarrow>
     file_size m \<le> size_limit
     \<or> (\<exists>j < num_chunks. p = Part (j + 1) num_chunks
           \<and> write_videofile Second_Pass video
                (fst (part_window total_duration num_chunks j))
                (snd (part_window total_duration num_chunks j)) \<in> {Write_Error, Not_Written})"

definition parts_ok :: "encoder \<Rightarrow> media \<Rightarrow> rat \<Rightarrow> nat \<Rightarrow> nat \<Rightarrow> filesystem \<Rightarrow> path list \<Rightarrow> bool" where
  "parts_ok write_videofile video total_duration num_chunks k fs parts \<longleftrightarrow>
     (\<forall>p \<in> set parts. \<exists>j < k. p \<in> touched j num_chunks
        \<and> (\<exists>m. fs p = Some m \<and> acceptable write_videofile video total_duration num_chunks p m))"

fun with_chunk_duration :: "nat \<Rightarrow> split_task \<Rightarrow> split_task" where
  "with_chunk_duration c (Enter fs video_path chunk_duration) = Enter fs video_path c"
| "with_chunk_duration c (Iterate video total_duration num_chunks i chunk_duration fs parts) =
     Iterate video total_duration num_chunks i c fs parts"

text \<open>What each part contributes to \<open>all_transcripts\<close> in \<open>process_video\<close>.\<close>

fun entries :: "part_result \<Rightarrow> string list" where
  "entries Part_Missing = []"
| "entries (Part_Failed e) = [failure_marker]"
| "entries (Part_Transcribed transcript) = [transcript]"

text \<open>
  Example encoders: every call writes 5MB; the first pass writes 16MB and the second
  raises; the size written is proportional to the length of the window, 100000 bytes
  per second in the first pass and 50000 in the second.
\<close>

definition writes_5mb :: encoder where
  "writes_5mb pr video start_time end_time =
     Written \<lparr>file_size = 5 * 1024 * 1024, video_duration = Some (end_time - start_time)\<rparr>"

definition second_pass_raises :: encoder where
  "second_pass_raises pr video start_time end_time =
     (case pr of
        First_Pass \<Rightarrow> Written \<lparr>file_size = 16 * 1024 * 1024, video_duration = Some (end_time - start_time)\<rparr>
      | Second_Pass \<Rightarrow> Write_Error)"

definition constant_rate :: encoder where
  "constant_rate pr video start_time end_time =
     Written \<lparr>file_size = \<lfloor>(case pr of First_Pass \<Rightarrow> 100000 | Second_Pass \<Rightarrow> 50000)
                              * (end_time - start_time)\<rfloor>,
              video_duration = Some (end_time - start_time)\<rparr>"

text \<open>
  Example behaviours at the recursion limit: the error reaches the caller's clause; the
  called function catches it in its outermost clause and returns \<open>[]\<close>.
\<close>

definition raises_to_caller :: overflow where
  "raises_to_caller fs video_path = None"

definition returns_nothing :: overflow where
  "returns_nothing fs video_path = Some ([], fs)"

text \<open>Example states: one downloaded video of the given size (in MB) and duration.\<close>

definition one_video :: "int \<Rightarrow> rat \<Rightarrow> world" where
  "one_video megabytes seconds =
     \<lparr>files = Map.empty(Ext ''video.mp4'' \<mapsto> \<lparr>file_size = megabytes * 1024 * 1024, video_duration = Some seconds\<rparr>),
      trace = []\<rparr>"

text \<open>
  Example transcription services: one that always answers; one whose first request
  fails and whose later requests answer; one whose requests after the first fail on the
  token limit; one whose every answer is a text that begins like the failure marker of
  \<open>process_video\<close>.
\<close>

definition answers :: transcriber where
  "answers history f = Returned ''hello''"

definition fails_once :: transcriber where
  "fails_once history f = (if history = [] then Raised ''Connection timed out'' else Returned ''hello'')"

definition token_limit_after_first :: transcriber where
  "token_limit_after_first history f =
     (if history = [] then Returned ''hello'' else Raised ''Error: Token limit exceeded'')"

definition answers_falha :: transcriber where
  "answers_falha history f = Returned '' [Falha de energia] voltamos''"

section \<open>Properties of the ledger\<close>



















text \<open>
  C5 (as amended). Every \<open>add_cost\<close> persists the new total before it returns: the
  ledger file then holds the new total, and a freshly started tracker reads it back.
  The persistence rewrites the ledger file in place (\<open>open(..., 'w')\<close>): a process that
  dies before \<open>open\<close> leaves the old file, one that dies after the \<open>with\<close> block
  leaves the new record, and one that dies in between leaves an empty file, from which
  a freshly started tracker reads nothing and starts at 0.
\<close>

theorem add_cost_persists_in_place:
  "snd (add_cost self cost now1 now2 disk)
     = Json_File \<lparr>json_total_cost = Some (total_cost self + cost), json_last_updated = Some now2\<rparr>
   \<and> TotalCostTracker_init (snd (add_cost self cost now1 now2 disk))
     = \<lparr>total_cost = total_cost self + cost, last_updated = now2\<rparr>
   \<and> save_interrupted 0 (fst (add_cost self cost now1 now2 disk)) now2 disk = disk
   \<and> save_interrupted 1 (fst (add_cost self cost now1 now2 disk)) now2 disk = Empty_File
   \<and> save_interrupted 2 (fst (add_cost self cost now1 now2 disk)) now2 disk
     = snd (add_cost self cost now1 now2 disk)
   \<and> TotalCostTracker_init Empty_File = \<lparr>total_cost = 0, last_updated = []\<rparr>"
  by (simp add: add_cost_def Let_def save_def save_writes_def save_interrupted_def
      TotalCostTracker_init_def load_def)

text \<open>
  C5 fails as stated: a crash between the truncation and the write leaves a file that
  is neither the old record nor the new one, and the accumulated total is lost.
\<close>

theorem save_interrupted_loses_ledger:
  "save_interrupted 1 \<lparr>total_cost = 3, last_updated = ''t1''\<rparr> ''t2''
      (Json_File \<lparr>json_total_cost = Some 2, json_last_updated = Some ''t0''\<rparr>) = Empty_File
   \<and> Empty_File \<noteq> Json_File \<lparr>json_total_cost = Some 2, json_last_updated = Some ''t0''\<rparr>
   \<and> Empty_File \<noteq> save \<lparr>total_cost = 3, last_updated = ''t1''\<rparr> ''t2''
      (Json_File \<lparr>json_total_cost = Some 2, json_last_updated = Some ''t0''\<rparr>)
   \<and> durable_total (Json_File \<lparr>json_total_cost = Some 2, json_last_updated = Some ''t0''\<rparr>) = 2
   \<and> durable_total (save_interrupted 1 \<lparr>total_cost = 3, last_updated = ''t1''\<rparr> ''t2''
      (Json_File \<lparr>json_total_cost = Some 2, json_last_updated = Some ''t0''\<rparr>)) = 0"
  by (simp add: save_def save_writes_def save_interrupted_def durable_total_def get_total_def
      TotalCostTracker_init_def load_def)

section \<open>Properties of the processed-set record\<close>

text \<open>
  C10. Saving a finite set of processed identifiers and loading it again gives the
  same set; what is saved is the JSON array of the identifiers in sorted order,
  each once.
\<close>

theorem processed_ids_roundtrip:
  assumes "finite processed_ids"
  shows "load_processed_ids (save_processed_ids processed_ids f) = processed_ids
       \<and> (\<exists>id_list. save_processed_ids processed_ids f = Ids_Json id_list
             \<and> sorted id_list \<and> distinct id_list \<and> set id_list = processed_ids)"
  using assms by (simp add: load_processed_ids_def save_processed_ids_def)

theorem processed_ids_roundtrip_witness:
  "finite {''1b'', ''1a'', ''0z''}
   \<and> load_processed_ids (save_processed_ids {''1b'', ''1a'', ''0z''} Ids_Missing) = {''1b'', ''1a'', ''0z''}
   \<and> save_processed_ids {''1b'', ''1a'', ''0z''} Ids_Missing = Ids_Json [''0z'', ''1a'', ''1b'']"
proof -
  have h: "finite {''1b'', ''1a'', ''0z''}" by simp
  have v: "save_processed_ids {''1b'', ''1a'', ''0z''} Ids_Missing = Ids_Json [''0z'', ''1a'', ''1b'']"
    unfolding save_processed_ids_def by code_simp
  from processed_ids_roundtrip [OF h, of Ids_Missing] h v show ?thesis by blast
qed

section \<open>Properties of the rounding\<close>

lemma round_half_even_cases:
  "round_half_even x = \<lfloor>x\<rfloor> \<and> x - of_int \<lfloor>x\<rfloor> \<le> 1 / 2
   \<or> round_half_even x = \<lfloor>x\<rfloor> + 1 \<and> 1 / 2 \<le> x - of_int \<lfloor>x\<rfloor>"
  by (auto simp: round_half_even_def Let_def)

lemma round_half_even_near:
  "\<bar>of_int (round_half_even x) - x\<bar> \<le> 1 / 2"
proof -
  have "of_int \<lfloor>x\<rfloor> \<le> x" "x < of_int \<lfloor>x\<rfloor> + 1" by linarith+
  with round_half_even_cases [of x] show ?thesis by auto
qed

lemma round_half_even_of_int [simp]: "round_half_even (of_int k) = k"
  by (simp add: round_half_even_def)

lemma round_half_even_mono:
  assumes "x \<le> y"
  shows "round_half_even x \<le> round_half_even y"
proof (cases "\<lfloor>x\<rfloor> = \<lfloor>y\<rfloor>")
  case True
  with assms show ?thesis by (auto simp: round_half_even_def Let_def)
next
  case False
  with assms have "\<lfloor>x\<rfloor> + 1 \<le> \<lfloor>y\<rfloor>" using floor_mono [OF assms] by linarith
  moreover have "round_half_even x \<le> \<lfloor>x\<rfloor> + 1" using round_half_even_cases [of x] by auto
  moreover have "\<lfloor>y\<rfloor> \<le> round_half_even y" using round_half_even_cases [of y] by auto
  ultimately show ?thesis by linarith
qed

lemma bitlen_powi:
  assumes "0 < a"
  shows "(2::rat) powi (bitlen a - 1) \<le> of_int a \<and> of_int a < (2::rat) powi (bitlen a)"
proof -
  from bitlen_bounds [OF assms] have b: "2 ^ nat (bitlen a - 1) \<le> a" "a < 2 ^ nat (bitlen a)" by auto
  have l: "1 \<le> bitlen a" using assms by (auto simp: bitlen_alt_def)
  have "(of_int (2 ^ nat (bitlen a - 1)) :: rat) \<le> of_int a" using b(1) by (simp only: of_int_le_iff)
  then have 1: "(2::rat) powi (bitlen a - 1) \<le> of_int a" using l by (simp add: power_int_def)
  have "(of_int a :: rat) < of_int (2 ^ nat (bitlen a))" using b(2) by (simp only: of_int_less_iff)
  then have 2: "of_int a < (2::rat) powi (bitlen a)" using l by (simp add: power_int_def)
  from 1 2 show ?thesis ..
qed

lemma binary_exponent_bounds:
  assumes "0 < x"
  shows "2 powi (binary_exponent x) \<le> x \<and> x < 2 powi (binary_exponent x + 1)"
proof -
  obtain a b where q: "quotient_of x = (a, b)" by (cases "quotient_of x")
  then have bpos: "0 < b" by (rule quotient_of_denom_pos)
  have x: "x = of_int a / of_int b" using q by (rule quotient_of_div)
  have apos: "0 < a" using assms bpos x by (simp add: zero_less_divide_iff)
  let ?e = "bitlen a - bitlen b"
  note A = bitlen_powi [OF apos] and B = bitlen_powi [OF bpos]
  have bq: "(0::rat) < of_int b" using bpos by simp
  have "x * of_int b < (2::rat) powi (bitlen a)" using A x bq by simp
  also have "\<dots> = 2 powi (?e + 1) * 2 powi (bitlen b - 1)"
    by (simp add: power_int_add [symmetric])
  also have "\<dots> \<le> 2 powi (?e + 1) * of_int b"
    using B by (intro mult_left_mono) auto
  finally have up: "x < 2 powi (?e + 1)" using bq by simp
  have "(2::rat) powi (?e - 1) * of_int b < 2 powi (?e - 1) * 2 powi (bitlen b)"
    using B by (intro mult_strict_left_mono) auto
  also have "\<dots> = 2 powi (bitlen a - 1)" by (simp add: power_int_add [symmetric])
  also have "\<dots> \<le> x * of_int b" using A x bq by simp
  finally have lo: "2 powi (?e - 1) < x" using bq by simp
  show ?thesis
  proof (cases "2 powi ?e \<le> x")
    case True
    with up q show ?thesis by (simp add: binary_exponent_def)
  next
    case False
    with lo q show ?thesis by (simp add: binary_exponent_def)
  qed
qed


lemma two_powi_less_imp_less:
  assumes "(2::rat) powi m < 2 powi n"
  shows "m < n"
proof (rule ccontr)
  assume "\<not> m < n"
  then have "n \<le> m" by simp
  then have "(2::rat) powi n \<le> 2 powi m" by (rule power_int_increasing) simp
  with assms show False by simp
qed

lemma binary_exponent_mono:
  assumes "0 < x" and "x \<le> y"
  shows "binary_exponent x \<le> binary_exponent y"
proof -
  have "(2::rat) powi (binary_exponent x) \<le> x" using binary_exponent_bounds [OF assms(1)] by simp
  also have "x \<le> y" by fact
  also have "y < 2 powi (binary_exponent y + 1)" using binary_exponent_bounds [of y] assms by simp
  finally have "(2::rat) powi (binary_exponent x) < 2 powi (binary_exponent y + 1)" .
  then have "binary_exponent x < binary_exponent y + 1"
    by (rule two_powi_less_imp_less)
  then show ?thesis by simp
qed

lemma round_double_zero [simp]: "round_double 0 = 0"
  by (simp add: round_double_def)

lemma round_double_pos:
  assumes "0 < x"
  shows "\<exists>m. round_double x = of_int m * 2 powi (binary_exponent x - 52)
           \<and> m = round_half_even (x / 2 powi (binary_exponent x - 52))
           \<and> 2 ^ 52 \<le> m \<and> m \<le> 2 ^ 53"
proof -
  let ?e = "binary_exponent x"
  let ?u = "(2::rat) powi (?e - 52)"
  let ?m = "round_half_even (x / ?u)"
  have u: "0 < ?u" by simp
  have fl: "round_double x = of_int ?m * ?u"
    using assms by (simp add: round_double_def Let_def)
  have e: "2 powi ?e = 2 ^ 52 * ?u" "2 powi (?e + 1) = 2 ^ 53 * ?u"
    by (simp_all add: power_int_diff power_int_add)
  from binary_exponent_bounds [OF assms] have "2 ^ 52 * ?u \<le> x" "x \<le> 2 ^ 53 * ?u"
    unfolding e by simp_all
  then have "of_int (2 ^ 52) \<le> x / ?u" "x / ?u \<le> of_int (2 ^ 53)"
    using u by (simp_all add: pos_le_divide_eq pos_divide_le_eq)
  from round_half_even_mono [OF this(1)] round_half_even_mono [OF this(2)]
  have "2 ^ 52 \<le> ?m" "?m \<le> 2 ^ 53" by (simp_all only: round_half_even_of_int)
  with fl show ?thesis by blast
qed

lemma round_double_range:
  assumes "0 < x"
  shows "2 powi (binary_exponent x) \<le> round_double x
       \<and> round_double x \<le> 2 powi (binary_exponent x + 1)"
proof -
  let ?e = "binary_exponent x"
  let ?u = "(2::rat) powi (?e - 52)"
  from round_double_pos [OF assms] obtain m where
    m: "round_double x = of_int m * ?u" "2 ^ 52 \<le> m" "m \<le> 2 ^ 53"
    by blast
  have u: "0 < ?u" by simp
  have e: "2 powi ?e = 2 ^ 52 * ?u" "2 powi (?e + 1) = 2 ^ 53 * ?u"
    by (simp_all add: power_int_diff power_int_add)
  have "(of_int (2 ^ 52) :: rat) \<le> of_int m" "(of_int m :: rat) \<le> of_int (2 ^ 53)"
    using m(2,3) by (simp_all only: of_int_le_iff)
  then have "2 ^ 52 * ?u \<le> of_int m * ?u" "of_int m * ?u \<le> 2 ^ 53 * ?u"
    using u by (simp_all add: mult_right_mono)
  with m(1) e show ?thesis by simp
qed

lemma round_double_nonneg: "0 \<le> x \<Longrightarrow> 0 \<le> round_double x"
proof (cases "x = 0")
  case True
  then show ?thesis by simp
next
  case False
  assume "0 \<le> x"
  with False have "0 < x" by simp
  from round_double_range [OF this] have "(2::rat) powi (binary_exponent x) \<le> round_double x" ..
  moreover have "(0::rat) < 2 powi (binary_exponent x)" by simp
  ultimately show ?thesis by linarith
qed

lemma round_double_mono:
  assumes "0 \<le> x" and "x \<le> y"
  shows "round_double x \<le> round_double y"
proof (cases "x = 0")
  case True
  with assms show ?thesis by (simp add: round_double_nonneg)
next
  case False
  with assms have x: "0 < x" and y: "0 < y" by simp_all
  have le: "binary_exponent x \<le> binary_exponent y"
    using x assms(2) by (rule binary_exponent_mono)
  show ?thesis
  proof (cases "binary_exponent x = binary_exponent y")
    case True
    let ?u = "(2::rat) powi (binary_exponent y - 52)"
    have u: "0 < ?u" by simp
    have "x / ?u \<le> y / ?u" using assms(2) u by (simp add: divide_right_mono)
    then have "round_half_even (x / ?u) \<le> round_half_even (y / ?u)"
      by (rule round_half_even_mono)
    then have "(of_int (round_half_even (x / ?u)) :: rat) \<le> of_int (round_half_even (y / ?u))"
      by (simp only: of_int_le_iff)
    then have "of_int (round_half_even (x / ?u)) * ?u \<le> of_int (round_half_even (y / ?u)) * ?u"
      using u by (simp add: mult_right_mono)
    then show ?thesis using x y True by (simp add: round_double_def Let_def)
  next
    case False
    with le have "binary_exponent x + 1 \<le> binary_exponent y" by simp
    then have "(2::rat) powi (binary_exponent x + 1) \<le> 2 powi (binary_exponent y)"
      by (rule power_int_increasing) simp
    with round_double_range [OF x] round_double_range [OF y] show ?thesis by linarith
  qed
qed

lemma round_double_error:
  assumes "0 \<le> x"
  shows "\<bar>round_double x - x\<bar> \<le> x / 2 ^ 53"
proof (cases "x = 0")
  case True
  then show ?thesis by simp
next
  case False
  with assms have x: "0 < x" by simp
  let ?e = "binary_exponent x"
  let ?u = "(2::rat) powi (?e - 52)"
  let ?m = "round_half_even (x / ?u)"
  have u: "0 < ?u" by simp
  have fl: "round_double x = of_int ?m * ?u"
    using x by (simp add: round_double_def Let_def)
  have "round_double x - x = (of_int ?m - x / ?u) * ?u"
    using u by (simp add: fl algebra_simps)
  then have "\<bar>round_double x - x\<bar> = \<bar>of_int ?m - x / ?u\<bar> * ?u"
    using u by (simp add: abs_mult)
  also have "\<dots> \<le> (1 / 2) * ?u"
    using round_half_even_near [of "x / ?u"] u by (intro mult_right_mono) simp_all
  also have "\<dots> = 2 powi ?e / 2 ^ 53"
    by (simp add: power_int_diff)
  also have "\<dots> \<le> x / 2 ^ 53"
    using binary_exponent_bounds [OF x] by (simp add: divide_right_mono)
  finally show ?thesis .
qed

lemma round_double_of_int:
  assumes "0 \<le> k" and "k < 2 ^ 53"
  shows "round_double (of_int k) = of_int k"
proof (cases "k = 0")
  case True
  then show ?thesis by simp
next
  case False
  with assms have k: "0 < k" by simp
  then have x: "(0::rat) < of_int k" by simp
  let ?e = "binary_exponent (of_int k)"
  let ?u = "(2::rat) powi (?e - 52)"
  have "(2::rat) powi ?e \<le> of_int k" using binary_exponent_bounds [OF x] by simp
  also have "(of_int k :: rat) < of_int (2 ^ 53)" using assms(2) by (simp only: of_int_less_iff)
  finally have "(2::rat) powi ?e < 2 powi 53" by simp
  then have "?e < 53" by (rule two_powi_less_imp_less)
  then have n: "0 \<le> 52 - ?e" by simp
  have "of_int k / ?u = of_int k * (2::rat) powi (52 - ?e)"
    by (simp add: power_int_diff)
  also have "\<dots> = of_int (k * 2 ^ nat (52 - ?e))"
    using n by (simp add: power_int_def)
  finally have "round_half_even (of_int k / ?u) = k * 2 ^ nat (52 - ?e)"
    by (simp only: round_half_even_of_int)
  then have "round_double (of_int k) = of_int (k * 2 ^ nat (52 - ?e)) * ?u"
    using x by (simp add: round_double_def Let_def)
  also have "\<dots> = of_int k * ((2::rat) powi (52 - ?e) * ?u)"
    using n by (simp add: power_int_def)
  also have "(2::rat) powi (52 - ?e) * ?u = 1"
    by (simp add: power_int_add [symmetric])
  finally show ?thesis by simp
qed

section \<open>Properties of the windows\<close>

lemma size_limit_pos: "(0::rat) < of_int size_limit"
  by (simp add: size_limit_def)

lemma num_chunks_of_exact:
  assumes "0 \<le> total_size" and "total_size < 2 ^ 53"
  shows "int (num_chunks_of total_size) = \<lceil>(of_int total_size :: rat) / of_int size_limit\<rceil>"
proof -
  let ?q = "(of_int total_size :: rat) / of_int size_limit"
  let ?K = "\<lceil>?q\<rceil>"
  note pos = size_limit_pos
  have q0: "0 \<le> ?q" using assms(1) pos by simp
  then have K0: "0 \<le> ?K" by (simp add: ceiling_le_iff [symmetric] le_ceiling_iff)
  have qK: "?q \<le> of_int ?K" by (rule le_of_int_ceiling)
  have "?q \<le> of_int total_size"
  proof -
    have "(1::rat) \<le> of_int size_limit" by (simp add: size_limit_def)
    then have "(of_int total_size :: rat) * 1 \<le> of_int total_size * of_int size_limit"
      using assms(1) by (intro mult_left_mono) simp_all
    then show ?thesis using pos by (simp add: pos_divide_le_eq)
  qed
  then have "?K \<le> total_size" by (simp add: ceiling_le_iff)
  with assms(2) have K53: "?K < 2 ^ 53" by linarith
  have up: "round_double ?q \<le> of_int ?K"
    using round_double_mono [OF q0 qK] round_double_of_int [OF K0 K53] by simp
  have lo: "of_int ?K - 1 < round_double ?q"
  proof (cases "total_size = 0")
    case True
    then show ?thesis by simp
  next
    case False
    have "of_int ?K - 1 < ?q" by (rule ceiling_correct [THEN conjunct1])
    then have "(of_int ?K - 1) * of_int size_limit < (of_int total_size :: rat)"
      using pos by (simp add: pos_less_divide_eq)
    then have "(of_int ((?K - 1) * size_limit) :: rat) < of_int total_size"
      by (simp only: of_int_mult of_int_diff of_int_1)
    then have "(?K - 1) * size_limit < total_size" by (simp only: of_int_less_iff)
    then have "(?K - 1) * size_limit + 1 \<le> total_size" by simp
    then have "(of_int ((?K - 1) * size_limit + 1) :: rat) \<le> of_int total_size"
      by (simp only: of_int_le_iff)
    then have "(of_int ?K - 1) * of_int size_limit + 1 \<le> (of_int total_size :: rat)"
      by simp
    then have "((of_int ?K - 1) * of_int size_limit + 1) / of_int size_limit \<le> ?q"
      using pos by (intro divide_right_mono) simp_all
    moreover have "((of_int ?K - 1) * of_int size_limit + 1) / of_int size_limit
        = (of_int ?K :: rat) - 1 + 1 / of_int size_limit"
      using pos by (simp add: field_simps)
    ultimately have gap: "of_int ?K - 1 + 1 / of_int size_limit \<le> ?q" by simp
    have "(of_int total_size :: rat) < of_int (2 ^ 53)" using assms(2) by (simp only: of_int_less_iff)
    then have lt1: "(of_int total_size :: rat) / 2 ^ 53 < 1" by simp
    have "(of_int total_size :: rat) / 2 ^ 53 / of_int size_limit < 1 / of_int size_limit"
      using lt1 pos by (rule divide_strict_right_mono)
    moreover have "(of_int total_size :: rat) / 2 ^ 53 / of_int size_limit = ?q / 2 ^ 53"
      by simp
    ultimately have small: "?q / 2 ^ 53 < 1 / of_int size_limit" by (simp only:)
    from round_double_error [OF q0] have "?q - ?q / 2 ^ 53 \<le> round_double ?q" by linarith
    with gap small show ?thesis by linarith
  qed
  have "\<lceil>round_double ?q\<rceil> = ?K"
    using lo up by (intro ceiling_unique) simp_all
  with K0 show ?thesis by (simp add: num_chunks_of_def)
qed

lemma num_chunks_of_ge2:
  assumes "size_limit < total_size"
  shows "2 \<le> num_chunks_of total_size"
proof -
  let ?q = "(of_int total_size :: rat) / of_int size_limit"
  note pos = size_limit_pos
  have "size_limit + 1 \<le> total_size" using assms by simp
  then have "(of_int (size_limit + 1) :: rat) \<le> of_int total_size" by (simp only: of_int_le_iff)
  then have "(of_int size_limit + 1) / of_int size_limit \<le> ?q"
    using pos by (intro divide_right_mono) simp_all
  moreover have "(of_int size_limit + 1) / of_int size_limit = (1::rat) + 1 / of_int size_limit"
    using pos by (simp add: field_simps)
  ultimately have "1 + 1 / of_int size_limit \<le> ?q" by simp
  moreover have "(1::rat) + 1 / 2 ^ 52 \<le> 1 + 1 / of_int size_limit"
    by (simp add: size_limit_def)
  ultimately have "(1::rat) + 1 / 2 ^ 52 \<le> ?q" by linarith
  then have "round_double (1 + 1 / 2 ^ 52) \<le> round_double ?q"
    by (intro round_double_mono) simp_all
  moreover have "round_double (1 + 1 / 2 ^ 52) = 1 + 1 / 2 ^ 52" by code_simp
  ultimately have "(1::rat) < round_double ?q" by simp
  then have "(1::int) < \<lceil>round_double ?q\<rceil>" by (simp add: less_ceiling_iff)
  then show ?thesis unfolding num_chunks_of_def by linarith
qed

lemma num_chunks_of_bounds:
  assumes "size_limit < total_size" and "total_size < 2 ^ 53"
  shows "(int (num_chunks_of total_size) - 1) * size_limit < total_size
       \<and> total_size \<le> int (num_chunks_of total_size) * size_limit
       \<and> int (num_chunks_of total_size) < 2 ^ 53"
proof -
  let ?q = "(of_int total_size :: rat) / of_int size_limit"
  note pos = size_limit_pos
  have t0: "0 \<le> total_size" using assms(1) by (simp add: size_limit_def)
  have c: "int (num_chunks_of total_size) = \<lceil>?q\<rceil>"
    using t0 assms(2) by (rule num_chunks_of_exact)
  have "(of_int total_size :: rat) \<le> of_int \<lceil>?q\<rceil> * of_int size_limit"
    by (rule pos_divide_le_eq [OF pos, THEN iffD1]) (rule le_of_int_ceiling)
  then have "(of_int total_size :: rat) \<le> of_int (\<lceil>?q\<rceil> * size_limit)"
    by (simp only: of_int_mult)
  then have u: "total_size \<le> \<lceil>?q\<rceil> * size_limit"
    by (simp only: of_int_le_iff)
  have "(of_int \<lceil>?q\<rceil> - 1) * of_int size_limit < (of_int total_size :: rat)"
    by (rule pos_less_divide_eq [OF pos, THEN iffD1]) (rule ceiling_correct [THEN conjunct1])
  then have "(of_int ((\<lceil>?q\<rceil> - 1) * size_limit) :: rat) < of_int total_size"
    by (simp only: of_int_mult of_int_diff of_int_1)
  then have l: "(\<lceil>?q\<rceil> - 1) * size_limit < total_size"
    by (simp only: of_int_less_iff)
  have "1 \<le> size_limit" by (simp add: size_limit_def)
  with l t0 have "\<lceil>?q\<rceil> - 1 < total_size"
    by (smt (verit, best) mult_le_cancel_left1 mult.commute)
  with assms(2) have "\<lceil>?q\<rceil> < 2 ^ 53" by linarith
  with u l c show ?thesis by simp
qed

lemma round_double_upper: "0 \<le> x \<Longrightarrow> round_double x \<le> x + x / 2 ^ 53"
  using round_double_error [of x] by linarith

lemma round_double_lower: "0 \<le> x \<Longrightarrow> x - x / 2 ^ 53 \<le> round_double x"
  using round_double_error [of x] by linarith

lemma window_product_le:
  assumes "0 \<le> d" and "round_double d = d" and "j < n" and "n \<le> 2 ^ 53"
  shows "round_double (of_nat j * round_double (d / of_nat n)) \<le> d"
proof -
  let ?x = "d / of_nat n"
  let ?pd = "round_double ?x"
  have alg1: "a * (x + x / c) = a * x + (a / c) * x" for a x c :: rat
    by (simp add: algebra_simps)
  have alg2: "(a - 1) * x + 1 * x = a * x" for a x :: rat
    by (simp add: algebra_simps)
  have n: "(0::rat) < of_nat n" using assms(3) by simp
  have x0: "0 \<le> ?x" using assms(1) n by simp
  have pd0: "0 \<le> ?pd" using x0 by (rule round_double_nonneg)
  have pd: "?pd \<le> ?x + ?x / 2 ^ 53" using x0 by (rule round_double_upper)
  have j: "(of_nat j :: rat) \<le> of_nat n - 1"
  proof -
    have "j + 1 \<le> n" using assms(3) by simp
    then have "(of_nat (j + 1) :: rat) \<le> of_nat n" by (simp only: of_nat_le_iff)
    then show ?thesis by simp
  qed
  have n1: "(0::rat) \<le> of_nat n - 1" using j of_nat_0_le_iff [of j, where ?'a = rat] by linarith
  have "(of_nat n :: rat) \<le> of_nat (2 ^ 53)" using assms(4) by (simp only: of_nat_le_iff)
  then have e: "((of_nat n :: rat) - 1) / 2 ^ 53 \<le> 1" by simp
  have "of_nat j * ?pd \<le> (of_nat n - 1) * ?pd" using j pd0 by (rule mult_right_mono)
  also have "\<dots> \<le> (of_nat n - 1) * (?x + ?x / 2 ^ 53)" using pd n1 by (rule mult_left_mono)
  also have "\<dots> = (of_nat n - 1) * ?x + ((of_nat n - 1) / 2 ^ 53) * ?x"
    by (rule alg1)
  also have "\<dots> \<le> (of_nat n - 1) * ?x + 1 * ?x"
    using e x0 by (intro add_left_mono mult_right_mono)
  also have "\<dots> = of_nat n * ?x" by (rule alg2)
  also have "\<dots> = d" using n by simp
  finally have le: "of_nat j * ?pd \<le> d" .
  have "0 \<le> of_nat j * ?pd" using pd0 by simp
  from round_double_mono [OF this le] assms(2) show ?thesis by simp
qed

lemma window_product_mono:
  assumes "0 \<le> d" and "0 < n" and "a \<le> b"
  shows "round_double (of_nat a * round_double (d / of_nat n))
           \<le> round_double (of_nat b * round_double (d / of_nat n))"
proof -
  have pd0: "0 \<le> round_double (d / of_nat n)"
    using assms(1,2) by (intro round_double_nonneg) simp
  have "(of_nat a :: rat) \<le> of_nat b" using assms(3) by simp
  then have "of_nat a * round_double (d / of_nat n) \<le> of_nat b * round_double (d / of_nat n)"
    using pd0 by (rule mult_right_mono)
  moreover have "0 \<le> of_nat a * round_double (d / of_nat n)" using pd0 by simp
  ultimately show ?thesis by (intro round_double_mono)
qed

lemma window_product_last:
  assumes "0 \<le> d" and "0 < n"
  shows "d - d / 2 ^ 52 \<le> round_double (of_nat n * round_double (d / of_nat n))"
proof -
  let ?x = "d / of_nat n"
  let ?pd = "round_double ?x"
  have n: "(0::rat) < of_nat n" using assms(2) by simp
  have x0: "0 \<le> ?x" using assms(1) n by simp
  have pd0: "0 \<le> ?pd" using x0 by (rule round_double_nonneg)
  have "?x - ?x / 2 ^ 53 \<le> ?pd" using x0 by (rule round_double_lower)
  then have "of_nat n * (?x - ?x / 2 ^ 53) \<le> of_nat n * ?pd"
    using n by (intro mult_left_mono) simp_all
  moreover have "of_nat n * (?x - ?x / 2 ^ 53) = d - d / 2 ^ 53"
  proof -
    have "a * (x - x / c) = a * x - a * x / c" for a x c :: rat
      by (simp add: algebra_simps)
    then have "of_nat n * (?x - ?x / 2 ^ 53) = of_nat n * ?x - of_nat n * ?x / 2 ^ 53" .
    moreover have "of_nat n * ?x = d" using n by simp
    ultimately show ?thesis by (simp only:)
  qed
  ultimately have a: "d - d / 2 ^ 53 \<le> of_nat n * ?pd" by simp
  have p0: "0 \<le> of_nat n * ?pd" using pd0 by simp
  have "of_nat n * ?pd - of_nat n * ?pd / 2 ^ 53 \<le> round_double (of_nat n * ?pd)"
    using p0 by (rule round_double_lower)
  moreover have "(d - d / 2 ^ 53) - (d - d / 2 ^ 53) / 2 ^ 53
      \<le> of_nat n * ?pd - of_nat n * ?pd / 2 ^ 53"
  proof -
    have alg: "y * (1 - 1 / c) = y - y / c" for y c :: rat
      by (simp add: algebra_simps)
    have "(d - d / 2 ^ 53) * (1 - 1 / 2 ^ 53) \<le> (of_nat n * ?pd) * (1 - 1 / 2 ^ 53)"
      using a by (intro mult_right_mono) simp_all
    then show ?thesis by (simp only: alg)
  qed
  moreover have "d - d / 2 ^ 52 \<le> (d - d / 2 ^ 53) - (d - d / 2 ^ 53) / 2 ^ 53"
  proof -
    have "(d - d / 2 ^ 53) - (d - d / 2 ^ 53) / 2 ^ 53 = d - d / 2 ^ 52 + d / 2 ^ 106"
      by (simp add: field_simps)
    moreover have "0 \<le> d / 2 ^ 106" using assms(1) by simp
    ultimately show ?thesis by linarith
  qed
  ultimately show ?thesis by linarith
qed

lemma part_window_fst:
  "fst (part_window d n i) = round_double (of_nat i * round_double (d / of_nat n))"
  by (simp add: part_window_def Let_def)

lemma part_window_snd:
  "snd (part_window d n i) = min (round_double (of_nat (i + 1) * round_double (d / of_nat n))) d"
  by (simp add: part_window_def Let_def)

lemma part_window_inner:
  assumes "0 \<le> d" and "round_double d = d" and "i + 1 < n" and "n \<le> 2 ^ 53"
  shows "snd (part_window d n i) = round_double (of_nat (i + 1) * round_double (d / of_nat n))"
  using window_product_le [OF assms] by (simp add: part_window_snd min_def)

lemma part_window_properties:
  assumes "0 \<le> d" and "round_double d = d" and "0 < n" and "n \<le> 2 ^ 53"
  shows "fst (part_window d n 0) = 0"
    and "i + 1 < n \<Longrightarrow> snd (part_window d n i) = fst (part_window d n (i + 1))"
    and "i < j \<Longrightarrow> j < n \<Longrightarrow> snd (part_window d n i) \<le> fst (part_window d n j)"
    and "i < n \<Longrightarrow> fst (part_window d n i) \<le> snd (part_window d n i)"
    and "snd (part_window d n (n - 1)) \<le> d"
    and "d - d / 2 ^ 52 \<le> snd (part_window d n (n - 1))"
proof -
  show "fst (part_window d n 0) = 0" by (simp add: part_window_fst)
  show "snd (part_window d n i) = fst (part_window d n (i + 1))" if "i + 1 < n"
    using part_window_inner [OF assms(1,2) that assms(4)] by (simp add: part_window_fst)
  show "snd (part_window d n i) \<le> fst (part_window d n j)" if "i < j" "j < n"
  proof -
    from that have "i + 1 \<le> j" by simp
    from window_product_mono [OF assms(1,3) this]
    show ?thesis by (simp add: part_window_fst part_window_snd min_le_iff_disj)
  qed
  show "fst (part_window d n i) \<le> snd (part_window d n i)" if "i < n"
  proof -
    have "i \<le> i + 1" by simp
    from window_product_mono [OF assms(1,3) this] window_product_le [OF assms(1,2) that assms(4)]
    show ?thesis by (simp add: part_window_fst part_window_snd)
  qed
  show "snd (part_window d n (n - 1)) \<le> d" by (simp add: part_window_snd)
  show "d - d / 2 ^ 52 \<le> snd (part_window d n (n - 1))"
  proof -
    have "d / 2 ^ 52 \<ge> 0" using assms(1) by simp
    then have "d - d / 2 ^ 52 \<le> d" by linarith
    moreover have "n - 1 + 1 = n" using assms(3) by simp
    ultimately show ?thesis
      using window_product_last [OF assms(1,3)] by (simp add: part_window_snd)
  qed
qed

section \<open>Properties of the splitter\<close>

lemma split_missing:
  "fs video_path = None \<Longrightarrow>
   split_video_by_size write_videofile overflow stack fs video_path chunk_duration = ([], fs)"
  by (simp add: split_video_by_size_def split_task_run.simps(1))

lemma split_unreadable:
  "fs video_path = Some video \<Longrightarrow> video_duration video = None \<Longrightarrow>
   split_video_by_size write_videofile overflow stack fs video_path chunk_duration = ([], fs)"
  by (simp add: split_video_by_size_def split_task_run.simps(1))

lemma split_small:
  assumes "fs video_path = Some video" and "video_duration video = Some total_duration"
    and "file_size video \<le> size_limit"
  shows "split_video_by_size write_videofile overflow stack fs video_path chunk_duration
           = ([video_path], fs)"
  using assms by (simp add: split_video_by_size_def split_task_run.simps(1))

lemma split_enter_big:
  assumes "fs video_path = Some video" and "video_duration video = Some total_duration"
    and "size_limit < file_size video"
  shows "split_video_by_size write_videofile overflow stack fs video_path chunk_duration =
         split_task_run write_videofile overflow stack
           (Iterate video total_duration (num_chunks_of (file_size video)) 0 chunk_duration fs [])"
  using assms by (simp add: split_video_by_size_def split_task_run.simps(1))

lemma iterate_done:
  "num_chunks \<le> i \<Longrightarrow>
   split_task_run enc ov k (Iterate video d num_chunks i cd fs parts) = (parts, fs)"
  by (simp add: split_task_run.simps(2))

lemma iterate_skip:
  "i < num_chunks \<Longrightarrow> encode_part enc video d num_chunks i fs = Skip_Part fs' \<Longrightarrow>
   split_task_run enc ov k (Iterate video d num_chunks i cd fs parts)
     = split_task_run enc ov k (Iterate video d num_chunks (i + 1) cd fs' parts)"
  by (subst split_task_run.simps(2)) simp

lemma iterate_keep:
  "i < num_chunks \<Longrightarrow> encode_part enc video d num_chunks i fs = Keep_Part fs' p \<Longrightarrow>
   split_task_run enc ov k (Iterate video d num_chunks i cd fs parts)
     = split_task_run enc ov k (Iterate video d num_chunks (i + 1) cd fs' (parts @ [p]))"
  by (subst split_task_run.simps(2)) simp

lemma iterate_split_nested:
  "i < num_chunks \<Longrightarrow> encode_part enc video d num_chunks i fs = Split_Again fs' p \<Longrightarrow>
   split_task_run enc ov (Suc k) (Iterate video d num_chunks i cd fs parts)
     = (case split_video_by_size enc ov k fs' p (cd div 2) of
          (subparts, fs'') \<Rightarrow>
            split_task_run enc ov (Suc k) (Iterate video d num_chunks (i + 1) cd fs'' (parts @ subparts)))"
  by (subst split_task_run.simps(2)) (simp add: split_video_by_size_def)

lemma iterate_split_overflow:
  "i < num_chunks \<Longrightarrow> encode_part enc video d num_chunks i fs = Split_Again fs' p \<Longrightarrow>
   split_task_run enc ov 0 (Iterate video d num_chunks i cd fs parts)
     = (case ov fs' p of
          None \<Rightarrow> split_task_run enc ov 0 (Iterate video d num_chunks (i + 1) cd fs' (parts @ [p]))
        | Some (subparts, fs'') \<Rightarrow>
            split_task_run enc ov 0 (Iterate video d num_chunks (i + 1) cd fs'' (parts @ subparts)))"
  by (subst split_task_run.simps(2)) simp

lemma split_task_run_chunk_duration:
  "split_task_run enc ov k (with_chunk_duration c task) = split_task_run enc ov k task"
proof (induction enc ov k task arbitrary: c rule: split_task_run.induct)
  case (1 enc ov k fs video_path chunk_duration)
  show ?case
  proof (cases "fs video_path")
    case None
    then show ?thesis by (simp add: split_task_run.simps(1))
  next
    case (Some video)
    show ?thesis
    proof (cases "video_duration video")
      case None
      with Some show ?thesis by (simp add: split_task_run.simps(1))
    next
      case d: (Some d)
      show ?thesis
      proof (cases "file_size video \<le> size_limit")
        case True
        with Some d show ?thesis by (simp add: split_task_run.simps(1))
      next
        case False
        from "1.IH" [OF Some d False, of c] Some d False show ?thesis
          by (simp add: split_task_run.simps(1))
      qed
    qed
  qed
next
  case (2 enc ov k video d n i cd fs parts)
  show ?case
  proof (cases "n \<le> i")
    case True
    then show ?thesis by (simp add: iterate_done)
  next
    case False
    then have lt: "i < n" by simp
    show ?thesis
    proof (cases "encode_part enc video d n i fs")
      case (Skip_Part fs')
      from "2.IH"(1) [OF False Skip_Part, of c] show ?thesis
        by (simp add: iterate_skip [OF lt Skip_Part])
    next
      case (Keep_Part fs' p)
      from "2.IH"(2) [OF False Keep_Part, of c] show ?thesis
        by (simp add: iterate_keep [OF lt Keep_Part])
    next
      case (Split_Again fs' p)
      show ?thesis
      proof (cases k)
        case 0
        show ?thesis
        proof (cases "ov fs' p")
          case None
          from "2.IH"(3) [OF False Split_Again 0 None, of c] show ?thesis
            using 0 None by (simp add: iterate_split_overflow [OF lt Split_Again])
        next
          case (Some r)
          obtain sub fs'' where r: "r = (sub, fs'')" by (cases r)
          from "2.IH"(4) [OF False Split_Again 0 Some r [symmetric], of c] show ?thesis
            using 0 Some r by (simp add: iterate_split_overflow [OF lt Split_Again])
        qed
      next
        case (Suc below)
        obtain sub fs'' where r: "split_task_run enc ov below (Enter fs' p (cd div 2)) = (sub, fs'')"
          by (cases "split_task_run enc ov below (Enter fs' p (cd div 2))")
        from "2.IH"(5) [OF False Split_Again Suc, of "c div 2"]
        have e: "split_task_run enc ov below (Enter fs' p (c div 2)) = (sub, fs'')"
          using r by simp
        from "2.IH"(6) [OF False Split_Again Suc r [symmetric], of c] show ?thesis
          using Suc r e
          by (simp add: iterate_split_nested [OF lt Split_Again] split_video_by_size_def)
      qed
    qed
  qed
qed

lemma split_ignores_chunk_duration:
  "split_video_by_size enc ov k fs video_path c = split_video_by_size enc ov k fs video_path c'"
  using split_task_run_chunk_duration [of enc ov k c "Enter fs video_path c'"]
  by (simp add: split_video_by_size_def)

lemma splits_again_local:
  assumes "fs (Part (i + 1) n) = fs0 (Part (i + 1) n)"
    and "fs (Compressed_Part (i + 1) n) = fs0 (Compressed_Part (i + 1) n)"
  shows "splits_again enc video d n fs i = splits_again enc video d n fs0 i"
  using assms
  by (cases "part_window d n i")
     (simp add: splits_again_def encode_part_def store_def Let_def
        split: write_result.splits option.splits)

lemma encode_part_without_split:
  assumes "\<not> splits_again enc video d n fs i" and "i < n"
  shows "(\<exists>fs'. encode_part enc video d n i fs = Skip_Part fs'
            \<and> (\<forall>q. q \<notin> touched i n \<longrightarrow> fs' q = fs q))
       \<or> (\<exists>fs' p m. encode_part enc video d n i fs = Keep_Part fs' p
            \<and> p \<in> touched i n \<and> fs' p = Some m
            \<and> acceptable enc video d n p m
            \<and> (\<forall>q. q \<notin> touched i n \<longrightarrow> fs' q = fs q))"
proof -
  obtain s e where w: "part_window d n i = (s, e)"
    by (cases "part_window d n i")
  have acc: "enc Second_Pass video s e \<in> {Write_Error, Not_Written} \<Longrightarrow>
     acceptable enc video d n (Part (i + 1) n) m" for m
    unfolding acceptable_def using assms(2) w by auto
  show ?thesis
  proof (cases "enc First_Pass video s e")
    case Write_Error
    then show ?thesis using w by (simp add: encode_part_def)
  next
    case Not_Written
    show ?thesis
    proof (cases "fs (Part (i + 1) n)")
      case None
      then show ?thesis using w Not_Written by (simp add: encode_part_def store_def)
    next
      case (Some part)
      show ?thesis
      proof (cases "enc Second_Pass video s e")
        case Write_Error
        then show ?thesis using w Not_Written Some acc [of part]
          by (auto simp: encode_part_def store_def touched_def acceptable_def Let_def)
      next
        case second: Not_Written
        then show ?thesis using w Not_Written Some acc [of part] assms(1)
          by (auto simp: encode_part_def store_def touched_def acceptable_def splits_again_def Let_def
              split: option.splits if_splits)
      next
        case (Written c)
        then show ?thesis using w Not_Written Some assms(1)
          by (auto simp: encode_part_def store_def touched_def acceptable_def splits_again_def Let_def
              split: if_splits)
      qed
    qed
  next
    case (Written part)
    show ?thesis
    proof (cases "enc Second_Pass video s e")
      case Write_Error
      then show ?thesis using w Written acc [of part]
        by (auto simp: encode_part_def store_def touched_def acceptable_def Let_def)
    next
      case Not_Written
      then show ?thesis using w Written acc [of part] assms(1)
        by (auto simp: encode_part_def store_def touched_def acceptable_def splits_again_def Let_def
            split: option.splits if_splits)
    next
      case second: (Written c)
      then show ?thesis using w Written assms(1)
        by (auto simp: encode_part_def store_def touched_def acceptable_def splits_again_def Let_def
            split: if_splits)
    qed
  qed
qed

lemma touched_disjoint: "j \<noteq> i \<Longrightarrow> p \<in> touched j n \<Longrightarrow> p \<notin> touched i n"
  by (auto simp: touched_def)

lemma parts_ok_skip:
  assumes "parts_ok enc video d n i fs parts" and "\<forall>q. q \<notin> touched i n \<longrightarrow> fs' q = fs q"
  shows "parts_ok enc video d n (Suc i) fs' parts"
  unfolding parts_ok_def
proof
  fix p assume "p \<in> set parts"
  with assms(1) obtain j m where j: "j < i" "p \<in> touched j n" "fs p = Some m"
      "acceptable enc video d n p m"
    unfolding parts_ok_def by blast
  from j(1,2) have "p \<notin> touched i n" by (intro touched_disjoint [of j i]) simp_all
  with assms(2) j(3) have "fs' p = Some m" by simp
  with j show "\<exists>j<Suc i. p \<in> touched j n \<and> (\<exists>m. fs' p = Some m \<and> acceptable enc video d n p m)"
    by (metis less_Suc_eq)
qed

lemma parts_ok_keep:
  assumes "parts_ok enc video d n i fs parts" and "\<forall>q. q \<notin> touched i n \<longrightarrow> fs' q = fs q"
    and "p \<in> touched i n" and "fs' p = Some m" and "acceptable enc video d n p m"
  shows "parts_ok enc video d n (Suc i) fs' (parts @ [p])"
proof -
  have "parts_ok enc video d n (Suc i) fs' parts"
    using assms(1,2) by (rule parts_ok_skip)
  moreover have "\<exists>j<Suc i. p \<in> touched j n \<and> (\<exists>m. fs' p = Some m \<and> acceptable enc video d n p m)"
    using assms(3,4,5) by blast
  ultimately show ?thesis unfolding parts_ok_def by auto
qed

lemma iterate_without_split:
  assumes "\<forall>j < n. \<not> splits_again enc video d n fs0 j"
  shows "i \<le> n \<Longrightarrow> \<forall>j. i \<le> j \<longrightarrow> (\<forall>q \<in> touched j n. fs q = fs0 q) \<Longrightarrow>
     parts_ok enc video d n i fs parts \<Longrightarrow>
     parts_ok enc video d n n
       (snd (split_task_run enc ov k (Iterate video d n i cd fs parts)))
       (fst (split_task_run enc ov k (Iterate video d n i cd fs parts)))
     \<and> length (fst (split_task_run enc ov k (Iterate video d n i cd fs parts)))
         \<le> length parts + (n - i)"
proof (induction "n - i" arbitrary: i fs parts)
  case 0
  then have "i = n" by simp
  with 0 show ?case by (simp add: iterate_done)
next
  case (Suc m)
  then have lt: "i < n" and m: "m = n - Suc i" and le: "Suc i \<le> n" by simp_all
  have "fs (Part (i + 1) n) = fs0 (Part (i + 1) n)"
    "fs (Compressed_Part (i + 1) n) = fs0 (Compressed_Part (i + 1) n)"
    using Suc.prems(2) by (simp_all add: touched_def)
  then have "splits_again enc video d n fs i = splits_again enc video d n fs0 i"
    by (rule splits_again_local)
  with assms lt have ns: "\<not> splits_again enc video d n fs i" by simp
  have agree: "\<forall>j. Suc i \<le> j \<longrightarrow> (\<forall>q \<in> touched j n. fs' q = fs0 q)"
    if a: "\<forall>q. q \<notin> touched i n \<longrightarrow> fs' q = fs q" for fs'
  proof (intro allI impI ballI)
    fix j q assume j: "Suc i \<le> j" and q: "q \<in> touched j n"
    then have "q \<notin> touched i n" by (intro touched_disjoint [of j i]) simp_all
    with a have "fs' q = fs q" by simp
    also have "fs q = fs0 q" using Suc.prems(2) j q by (metis Suc_leD)
    finally show "fs' q = fs0 q" .
  qed
  from encode_part_without_split [OF ns lt]
  show ?case
  proof (elim disjE exE conjE)
    fix fs' assume e: "encode_part enc video d n i fs = Skip_Part fs'"
      and a: "\<forall>q. q \<notin> touched i n \<longrightarrow> fs' q = fs q"
    have ok: "parts_ok enc video d n (Suc i) fs' parts"
      using Suc.prems(3) a by (rule parts_ok_skip)
    have eq: "split_task_run enc ov k (Iterate video d n i cd fs parts)
        = split_task_run enc ov k (Iterate video d n (Suc i) cd fs' parts)"
      using iterate_skip [OF lt e] by simp
    from Suc.hyps(1) [OF m le agree [OF a] ok] lt show ?thesis
      unfolding eq by auto
  next
    fix fs' p m' assume e: "encode_part enc video d n i fs = Keep_Part fs' p"
      and a: "\<forall>q. q \<notin> touched i n \<longrightarrow> fs' q = fs q"
      and p: "p \<in> touched i n" "fs' p = Some m'" "acceptable enc video d n p m'"
    have ok: "parts_ok enc video d n (Suc i) fs' (parts @ [p])"
      using Suc.prems(3) a p by (rule parts_ok_keep)
    have eq: "split_task_run enc ov k (Iterate video d n i cd fs parts)
        = split_task_run enc ov k (Iterate video d n (Suc i) cd fs' (parts @ [p]))"
      using iterate_keep [OF lt e] by simp
    from Suc.hyps(1) [OF m le agree [OF a] ok] lt show ?thesis
      unfolding eq by auto
  qed
qed

lemma split_without_split:
  assumes "fs video_path = Some video" and "video_duration video = Some d"
    and "size_limit < file_size video"
    and "\<forall>j < num_chunks_of (file_size video).
           \<not> splits_again enc video d (num_chunks_of (file_size video)) fs j"
  shows "length (fst (split_video_by_size enc ov k fs video_path cd)) \<le> num_chunks_of (file_size video)
     \<and> (\<forall>p \<in> set (fst (split_video_by_size enc ov k fs video_path cd)).
          \<exists>m. snd (split_video_by_size enc ov k fs video_path cd) p = Some m
           \<and> acceptable enc video d (num_chunks_of (file_size video)) p m)"
proof -
  let ?n = "num_chunks_of (file_size video)"
  have "parts_ok enc video d ?n 0 fs []" by (simp add: parts_ok_def)
  from iterate_without_split [OF assms(4) _ _ this, of ov k cd]
  have "parts_ok enc video d ?n ?n
       (snd (split_task_run enc ov k (Iterate video d ?n 0 cd fs [])))
       (fst (split_task_run enc ov k (Iterate video d ?n 0 cd fs [])))
     \<and> length (fst (split_task_run enc ov k (Iterate video d ?n 0 cd fs []))) \<le> ?n"
    by simp
  moreover have "split_video_by_size enc ov k fs video_path cd
      = split_task_run enc ov k (Iterate video d ?n 0 cd fs [])"
    using assms(1,2,3) by (simp add: split_enter_big)
  ultimately show ?thesis
    unfolding parts_ok_def by auto
qed

lemma encode_part_first_pass_fits:
  assumes "enc First_Pass video (fst (part_window d n i)) (snd (part_window d n i)) = Written m"
    and "file_size m \<le> size_limit"
  shows "encode_part enc video d n i fs = Keep_Part (fs(Part (i + 1) n \<mapsto> m)) (Part (i + 1) n)"
  using assms
  by (cases "part_window d n i") (simp add: encode_part_def store_def Let_def)

lemma encode_part_window_only:
  assumes "enc' First_Pass video (fst (part_window d n i)) (snd (part_window d n i))
             = enc First_Pass video (fst (part_window d n i)) (snd (part_window d n i))"
    and "enc' Second_Pass video (fst (part_window d n i)) (snd (part_window d n i))
             = enc Second_Pass video (fst (part_window d n i)) (snd (part_window d n i))"
  shows "encode_part enc' video d n i fs = encode_part enc video d n i fs"
proof -
  obtain a b where w: "part_window d n i = (a, b)" by (cases "part_window d n i")
  from assms have 1: "enc' First_Pass video a b = enc First_Pass video a b"
    and 2: "enc' Second_Pass video a b = enc Second_Pass video a b"
    by (simp_all add: w)
  show ?thesis unfolding encode_part_def w Let_def prod.case 1 2 by (rule refl)
qed

lemma iterate_first_pass_fits:
  assumes "\<forall>j < n. \<exists>m. enc First_Pass video (fst (part_window d n j)) (snd (part_window d n j)) = Written m
              \<and> file_size m \<le> size_limit"
  shows "i \<le> n \<Longrightarrow>
     \<forall>j < i. map_option Written (fs (Part (j + 1) n))
                = Some (enc First_Pass video (fst (part_window d n j)) (snd (part_window d n j))) \<Longrightarrow>
     fst (split_task_run enc ov k (Iterate video d n i cd fs parts))
       = parts @ map (\<lambda>j. Part (j + 1) n) [i..<n]
     \<and> (\<forall>j < n. map_option Written (snd (split_task_run enc ov k (Iterate video d n i cd fs parts)) (Part (j + 1) n))
                = Some (enc First_Pass video (fst (part_window d n j)) (snd (part_window d n j))))"
proof (induction "n - i" arbitrary: i fs parts)
  case 0
  then have "i = n" by simp
  with 0 show ?case by (simp add: iterate_done)
next
  case (Suc x)
  then have lt: "i < n" and x: "x = n - Suc i" and le: "Suc i \<le> n" by simp_all
  from assms lt obtain m where
    m: "enc First_Pass video (fst (part_window d n i)) (snd (part_window d n i)) = Written m"
      "file_size m \<le> size_limit"
    by blast
  define fs' where "fs' = fs(Part (i + 1) n \<mapsto> m)"
  have e: "encode_part enc video d n i fs = Keep_Part fs' (Part (i + 1) n)"
    unfolding fs'_def using m by (rule encode_part_first_pass_fits)
  have eq: "split_task_run enc ov k (Iterate video d n i cd fs parts)
      = split_task_run enc ov k (Iterate video d n (Suc i) cd fs' (parts @ [Part (i + 1) n]))"
    using iterate_keep [OF lt e] by simp
  have inv: "\<forall>j < Suc i. map_option Written (fs' (Part (j + 1) n))
                = Some (enc First_Pass video (fst (part_window d n j)) (snd (part_window d n j)))"
    using Suc.prems(2) m(1) by (auto simp: less_Suc_eq fs'_def)
  have u: "[i..<n] = i # [Suc i..<n]" using lt by (rule upt_conv_Cons)
  from Suc.hyps(1) [OF x le inv, of "parts @ [Part (i + 1) n]"] show ?case
    unfolding eq u by simp
qed

lemma split_first_pass_fits:
  assumes "fs video_path = Some video" and "video_duration video = Some d"
    and "size_limit < file_size video" and "n = num_chunks_of (file_size video)"
    and "\<forall>j < n. \<exists>m. enc First_Pass video (fst (part_window d n j)) (snd (part_window d n j)) = Written m
              \<and> file_size m \<le> size_limit"
  shows "fst (split_video_by_size enc ov k fs video_path cd) = map (\<lambda>j. Part (j + 1) n) [0..<n]
     \<and> (\<forall>j < n. map_option Written (snd (split_video_by_size enc ov k fs video_path cd) (Part (j + 1) n))
                = Some (enc First_Pass video (fst (part_window d n j)) (snd (part_window d n j))))"
proof -
  have "split_video_by_size enc ov k fs video_path cd
      = split_task_run enc ov k (Iterate video d n 0 cd fs [])"
    using assms(1,2,3,4) by (simp add: split_enter_big)
  with iterate_first_pass_fits [where i = 0 and fs = fs and parts = "[]" and enc = enc and n = n
      and video = video and d = d and ov = ov and k = k and cd = cd] assms(5)
  show ?thesis by simp
qed

text \<open>
  C6 (as amended). For a video above the limit (and below \<open>2\<^sup>5\<^sup>3\<close> bytes), of duration
  \<open>d \<ge> 0\<close>, a double: \<open>split_video_by_size\<close> enters its loop with
  \<open>n = ceil(size / 15MB)\<close> chunks (so \<open>(n - 1) * 15MB < size \<le> n * 15MB\<close>); pass \<open>i\<close>
  works on the window \<open>[i * pd, min((i + 1) * pd, d)]\<close> with \<open>pd = d / n\<close>, each
  operation rounded to a double; the pass depends on the encoder only through what it
  does on that window, a first pass that writes a file within the limit there makes
  that file part \<open>i + 1\<close>, and when every first pass does so the call returns the parts
  \<open>1 \<dots> n\<close> in order, part \<open>i + 1\<close> being the encoding of window \<open>i\<close>. The first window
  starts at 0, each window ends where the next starts, windows do not overlap, no
  window ends before it starts, and the last window ends at \<open>d\<close> or below it by at
  most \<open>d / 2\<^sup>5\<^sup>2\<close>.
\<close>

theorem split_windows_partition:
  assumes "fs video_path = Some video" and "video_duration video = Some d"
    and "size_limit < file_size video" and "file_size video < 2 ^ 53"
    and "0 \<le> d" and "round_double d = d"
    and "n = num_chunks_of (file_size video)"
  shows "split_video_by_size write_videofile overflow stack fs video_path chunk_duration
           = split_task_run write_videofile overflow stack (Iterate video d n 0 chunk_duration fs [])
       \<and> int n = \<lceil>(of_int (file_size video) :: rat) / of_int size_limit\<rceil>
       \<and> (int n - 1) * size_limit < file_size video \<and> file_size video \<le> int n * size_limit
       \<and> (\<forall>i < n. part_window d n i
              = (round_double (of_nat i * round_double (d / of_nat n)),
                 min (round_double (of_nat (i + 1) * round_double (d / of_nat n))) d))
       \<and> (\<forall>i < n. \<forall>fs1 enc'.
              enc' First_Pass video (fst (part_window d n i)) (snd (part_window d n i))
                = write_videofile First_Pass video (fst (part_window d n i)) (snd (part_window d n i))
              \<and> enc' Second_Pass video (fst (part_window d n i)) (snd (part_window d n i))
                = write_videofile Second_Pass video (fst (part_window d n i)) (snd (part_window d n i))
              \<longrightarrow> encode_part enc' video d n i fs1 = encode_part write_videofile video d n i fs1)
       \<and> (\<forall>i < n. \<forall>fs1 m.
              write_videofile First_Pass video (fst (part_window d n i)) (snd (part_window d n i)) = Written m
              \<and> file_size m \<le> size_limit
              \<longrightarrow> encode_part write_videofile video d n i fs1
                    = Keep_Part (fs1(Part (i + 1) n \<mapsto> m)) (Part (i + 1) n))
       \<and> ((\<forall>i < n. \<exists>m. write_videofile First_Pass video (fst (part_window d n i)) (snd (part_window d n i))
                          = Written m \<and> file_size m \<le> size_limit)
            \<longrightarrow> fst (split_video_by_size write_videofile overflow stack fs video_path chunk_duration)
                  = map (\<lambda>i. Part (i + 1) n) [0..<n]
                \<and> (\<forall>i < n. map_option Written
                      (snd (split_video_by_size write_videofile overflow stack fs video_path chunk_duration)
                         (Part (i + 1) n))
                     = Some (write_videofile First_Pass video
                               (fst (part_window d n i)) (snd (part_window d n i)))))
       \<and> fst (part_window d n 0) = 0
       \<and> (\<forall>i. i + 1 < n \<longrightarrow> snd (part_window d n i) = fst (part_window d n (i + 1)))
       \<and> (\<forall>i j. i < j \<and> j < n \<longrightarrow> snd (part_window d n i) \<le> fst (part_window d n j))
       \<and> (\<forall>i < n. fst (part_window d n i) \<le> snd (part_window d n i))
       \<and> snd (part_window d n (n - 1)) \<le> d
       \<and> d - d / 2 ^ 52 \<le> snd (part_window d n (n - 1))"
proof -
  have n2: "2 \<le> n" using assms(3,7) by (simp add: num_chunks_of_ge2)
  then have npos: "0 < n" by simp
  have t0: "0 \<le> file_size video" using assms(3) by (simp add: size_limit_def)
  have enter: "split_video_by_size write_videofile overflow stack fs video_path chunk_duration
           = split_task_run write_videofile overflow stack (Iterate video d n 0 chunk_duration fs [])"
    using assms(1,2,3,7) by (simp add: split_enter_big)
  have ceil: "int n = \<lceil>(of_int (file_size video) :: rat) / of_int size_limit\<rceil>"
    using num_chunks_of_exact [OF t0 assms(4)] assms(7) by simp
  from num_chunks_of_bounds [OF assms(3,4)] assms(7)
  have bounds: "(int n - 1) * size_limit < file_size video \<and> file_size video \<le> int n * size_limit"
    and n53: "int n < 2 ^ 53"
    by simp_all
  have "int n \<le> int (2 ^ 53)" using n53 by simp
  then have nle: "n \<le> 2 ^ 53" by (simp only: of_nat_le_iff)
  note props = part_window_properties [OF assms(5,6) npos nle]
  have c1: "\<forall>i < n. part_window d n i
              = (round_double (of_nat i * round_double (d / of_nat n)),
                 min (round_double (of_nat (i + 1) * round_double (d / of_nat n))) d)"
    by (simp add: part_window_def Let_def)
  have l1: "\<forall>i < n. \<forall>fs1 enc'.
              enc' First_Pass video (fst (part_window d n i)) (snd (part_window d n i))
                = write_videofile First_Pass video (fst (part_window d n i)) (snd (part_window d n i))
              \<and> enc' Second_Pass video (fst (part_window d n i)) (snd (part_window d n i))
                = write_videofile Second_Pass video (fst (part_window d n i)) (snd (part_window d n i))
              \<longrightarrow> encode_part enc' video d n i fs1 = encode_part write_videofile video d n i fs1"
    by (intro allI impI) (rule encode_part_window_only, simp_all)
  have l2: "\<forall>i < n. \<forall>fs1 m.
              write_videofile First_Pass video (fst (part_window d n i)) (snd (part_window d n i)) = Written m
              \<and> file_size m \<le> size_limit
              \<longrightarrow> encode_part write_videofile video d n i fs1
                    = Keep_Part (fs1(Part (i + 1) n \<mapsto> m)) (Part (i + 1) n)"
    by (intro allI impI) (rule encode_part_first_pass_fits, simp_all)
  have l3: "(\<forall>i < n. \<exists>m. write_videofile First_Pass video (fst (part_window d n i)) (snd (part_window d n i))
                          = Written m \<and> file_size m \<le> size_limit)
            \<longrightarrow> fst (split_video_by_size write_videofile overflow stack fs video_path chunk_duration)
                  = map (\<lambda>i. Part (i + 1) n) [0..<n]
                \<and> (\<forall>i < n. map_option Written
                      (snd (split_video_by_size write_videofile overflow stack fs video_path chunk_duration)
                         (Part (i + 1) n))
                     = Some (write_videofile First_Pass video
                               (fst (part_window d n i)) (snd (part_window d n i))))"
    using split_first_pass_fits [where fs = fs and video_path = video_path and video = video
        and d = d and n = n and enc = write_videofile and ov = overflow and k = stack
        and cd = chunk_duration] assms(1,2,3,7)
    by blast
  have c4: "\<forall>i. i + 1 < n \<longrightarrow> snd (part_window d n i) = fst (part_window d n (i + 1))"
    using props(2) by blast
  have c5: "\<forall>i j. i < j \<and> j < n \<longrightarrow> snd (part_window d n i) \<le> fst (part_window d n j)"
    using props(3) by blast
  have c6: "\<forall>i < n. fst (part_window d n i) \<le> snd (part_window d n i)"
    using props(4) by blast
  from enter ceil bounds c1 l1 l2 l3 props(1) c4 c5 c6 props(5,6) show ?thesis
    by (intro conjI) blast+
qed

theorem split_windows_partition_witness:
  "files (one_video 20 1200) (Ext ''video.mp4'') = Some \<lparr>file_size = 20 * 1024 * 1024, video_duration = Some 1200\<rparr>
   \<and> size_limit < 20 * 1024 * 1024
   \<and> (20 * 1024 * 1024 :: int) < 2 ^ 53
   \<and> round_double 1200 = 1200
   \<and> 2 = num_chunks_of (20 * 1024 * 1024)
   \<and> part_window 1200 2 0 = (0, 600)
   \<and> part_window 1200 2 1 = (600, 1200)
   \<and> snd (part_window 1200 2 0) = fst (part_window 1200 2 1)
   \<and> fst (split_video_by_size writes_5mb raises_to_caller 900 (files (one_video 20 1200)) (Ext ''video.mp4'') 600)
       = [Part 1 2, Part 2 2]
   \<and> snd (split_video_by_size writes_5mb raises_to_caller 900 (files (one_video 20 1200)) (Ext ''video.mp4'') 600)
         (Part 2 2)
       = Some \<lparr>file_size = 5 * 1024 * 1024, video_duration = Some 600\<rparr>"
proof -
  let ?v = "\<lparr>file_size = 20 * 1024 * 1024, video_duration = Some (1200::rat)\<rparr>"
  let ?run = "split_video_by_size writes_5mb raises_to_caller 900 (files (one_video 20 1200)) (Ext ''video.mp4'') 600"
  have h1: "files (one_video 20 1200) (Ext ''video.mp4'') = Some ?v"
    by (simp add: one_video_def)
  have h2: "video_duration ?v = Some 1200" by simp
  have h3: "size_limit < file_size ?v" by (simp add: size_limit_def)
  have h4: "file_size ?v < 2 ^ 53" by simp
  have h5: "(0::rat) \<le> 1200" by simp
  have h6: "round_double 1200 = 1200" by code_simp
  have "num_chunks_of (20 * 1024 * 1024) = 2" by code_simp
  then have h7: "2 = num_chunks_of (file_size ?v)" by simp
  have w0: "part_window 1200 2 0 = (0, 600)" by code_simp
  have w1: "part_window 1200 2 1 = (600, 1200)" by code_simp
  have fits: "\<forall>i < 2. \<exists>m. writes_5mb First_Pass ?v (fst (part_window 1200 2 i)) (snd (part_window 1200 2 i))
                          = Written m \<and> file_size m \<le> size_limit"
    by (simp add: writes_5mb_def size_limit_def)
  note inst = split_windows_partition [where fs = "files (one_video 20 1200)" and video_path = "Ext ''video.mp4''"
      and write_videofile = writes_5mb and overflow = raises_to_caller and stack = 900
      and chunk_duration = 600, OF h1 h2 h3 h4 h5 h6 h7]
  from inst have c4: "\<forall>i. i + 1 < 2 \<longrightarrow> snd (part_window 1200 2 i) = fst (part_window 1200 2 (i + 1))"
    by blast
  from c4 [rule_format, of 0] have b: "snd (part_window 1200 2 0) = fst (part_window 1200 2 1)"
    by simp
  from inst fits have r: "fst ?run = map (\<lambda>i. Part (i + 1) 2) [0..<2]
      \<and> (\<forall>i < 2. map_option Written (snd ?run (Part (i + 1) 2))
                     = Some (writes_5mb First_Pass ?v (fst (part_window 1200 2 i)) (snd (part_window 1200 2 i))))"
    by blast
  have u: "[0..<2] = [0, 1]" by (simp add: upt_rec)
  from r have r1: "fst ?run = [Part 1 2, Part 2 2]" unfolding u by simp
  from r have r': "\<forall>i < 2. map_option Written (snd ?run (Part (i + 1) 2))
                     = Some (writes_5mb First_Pass ?v (fst (part_window 1200 2 i)) (snd (part_window 1200 2 i)))"
    by blast
  have lt: "(1::nat) < 2" by simp
  from r' [rule_format, OF lt]
  have "map_option Written (snd ?run (Part 2 2))
      = Some (Written \<lparr>file_size = 5 * 1024 * 1024, video_duration = Some (1200 - 600)\<rparr>)"
    by (simp only: one_add_one w1 fst_conv snd_conv writes_5mb_def)
  then have r2: "snd ?run (Part 2 2) = Some \<lparr>file_size = 5 * 1024 * 1024, video_duration = Some 600\<rparr>"
    by auto
  from h1 h3 h6 h7 w0 w1 b r1 r2 show ?thesis by simp
qed

text \<open>
  C6 fails as stated: for a 40MB video whose duration is the double \<open>100.2\<close>, the loop
  has three passes, and the last window ends at \<open>100.19999999999999\<close>, below the
  duration: the windows do not cover \<open>[0, d]\<close>.
\<close>

theorem last_window_ends_before_duration:
  "round_double (1002 / 10) = 7050948166601933 / 70368744177664
   \<and> num_chunks_of (40 * 1024 * 1024) = 3
   \<and> part_window (7050948166601933 / 70368744177664) 3 2
       = (4700632111067955 / 70368744177664, 1762737041650483 / 17592186044416)
   \<and> snd (part_window (7050948166601933 / 70368744177664) 3 2) < 7050948166601933 / 70368744177664"
  by code_simp

text \<open>
  C1 (as amended). For a video above the limit that \<open>VideoFileClip\<close> can open, when no
  pass of the loop leaves a compressed file that is still above 15MB (so that no part
  is split again), every path that \<open>split_video_by_size\<close> returns refers to a file
  that is at most 15MB, or to the first-pass part of a window whose second pass raised
  or wrote no file (that part is returned at its first-pass size). The function has no
  floor and asserts nothing. The condition is on the passes of this run only: pass \<open>i\<close>
  on window \<open>i\<close> of this video, with the files as they are at entry (the passes of
  such a run write to different paths, so each finds its two paths as they were at
  entry).
\<close>

theorem split_parts_within_limit_or_second_pass_failed:
  assumes "fs video_path = Some video" and "video_duration video = Some d"
    and "size_limit < file_size video"
    and "\<forall>i < num_chunks_of (file_size video).
           \<not> splits_again write_videofile video d (num_chunks_of (file_size video)) fs i"
  shows "\<forall>p \<in> set (fst (split_video_by_size write_videofile overflow stack fs video_path chunk_duration)).
           \<exists>m. snd (split_video_by_size write_videofile overflow stack fs video_path chunk_duration) p = Some m
             \<and> (file_size m \<le> size_limit
                 \<or> (\<exists>j < num_chunks_of (file_size video). p = Part (j + 1) (num_chunks_of (file_size video))
                       \<and> write_videofile Second_Pass video
                            (fst (part_window d (num_chunks_of (file_size video)) j))
                            (snd (part_window d (num_chunks_of (file_size video)) j))
                          \<in> {Write_Error, Not_Written}))"
  using split_without_split [where fs = fs and video_path = video_path and enc = write_videofile
      and ov = overflow and k = stack and cd = chunk_duration, OF assms]
  unfolding acceptable_def by blast

theorem split_parts_within_limit_witness:
  "files (one_video 20 400) (Ext ''video.mp4'') = Some \<lparr>file_size = 20 * 1024 * 1024, video_duration = Some 400\<rparr>
   \<and> size_limit < 20 * 1024 * 1024
   \<and> num_chunks_of (20 * 1024 * 1024) = 2
   \<and> list_all (\<lambda>i. \<not> splits_again constant_rate \<lparr>file_size = 20 * 1024 * 1024, video_duration = Some 400\<rparr>
                       400 2 (files (one_video 20 400)) i) [0, 1]
   \<and> constant_rate First_Pass \<lparr>file_size = 20 * 1024 * 1024, video_duration = Some 400\<rparr> 0 200
       = Written \<lparr>file_size = 20000000, video_duration = Some 200\<rparr>
   \<and> size_limit < 20000000
   \<and> fst (split_video_by_size constant_rate raises_to_caller 900 (files (one_video 20 400)) (Ext ''video.mp4'') 600)
       = [Compressed_Part 1 2, Compressed_Part 2 2]
   \<and> list_all (\<lambda>p. \<exists>m. snd (split_video_by_size constant_rate raises_to_caller 900
                                 (files (one_video 20 400)) (Ext ''video.mp4'') 600) p = Some m
                       \<and> file_size m \<le> size_limit)
        [Compressed_Part 1 2, Compressed_Part 2 2]"
proof -
  let ?v = "\<lparr>file_size = 20 * 1024 * 1024, video_duration = Some (400::rat)\<rparr>"
  let ?run = "split_video_by_size constant_rate raises_to_caller 900 (files (one_video 20 400)) (Ext ''video.mp4'') 600"
  have h1: "files (one_video 20 400) (Ext ''video.mp4'') = Some ?v"
    by (simp add: one_video_def)
  have h2: "video_duration ?v = Some 400" by simp
  have h3: "size_limit < file_size ?v" by (simp add: size_limit_def)
  have n: "num_chunks_of (20 * 1024 * 1024) = 2" by code_simp
  have s0: "\<not> splits_again constant_rate ?v 400 2 (files (one_video 20 400)) 0" by code_simp
  have s1: "\<not> splits_again constant_rate ?v 400 2 (files (one_video 20 400)) 1" by code_simp
  have h4: "\<forall>i < num_chunks_of (file_size ?v).
      \<not> splits_again constant_rate ?v 400 (num_chunks_of (file_size ?v)) (files (one_video 20 400)) i"
    using s0 s1 n by (auto simp: less_2_cases_iff)
  have f: "constant_rate First_Pass ?v 0 200 = Written \<lparr>file_size = 20000000, video_duration = Some 200\<rparr>"
    by (simp add: constant_rate_def)
  have big: "size_limit < 20000000" by (simp add: size_limit_def)
  have r1: "fst ?run = [Compressed_Part 1 2, Compressed_Part 2 2]" by code_simp
  have never: "constant_rate Second_Pass video s e \<notin> {Write_Error, Not_Written}" for video s e
    by (simp add: constant_rate_def)
  from split_parts_within_limit_or_second_pass_failed
    [where fs = "files (one_video 20 400)" and video_path = "Ext ''video.mp4''"
       and write_videofile = constant_rate and overflow = raises_to_caller and stack = 900
       and chunk_duration = 600, OF h1 h2 h3 h4]
  have "\<forall>p \<in> set (fst ?run). \<exists>m. snd ?run p = Some m \<and> file_size m \<le> size_limit"
    using never by blast
  then have r2: "list_all (\<lambda>p. \<exists>m. snd ?run p = Some m \<and> file_size m \<le> size_limit)
        [Compressed_Part 1 2, Compressed_Part 2 2]"
    unfolding r1 by (simp add: list_all_iff)
  from h1 h3 n s0 s1 f big r1 r2 show ?thesis by simp
qed

text \<open>
  C1 fails as stated: when the second pass raises, the 16MB first-pass parts are
  returned, and the call returns normally.
\<close>

theorem split_returns_oversized_parts:
  "(case split_video_by_size second_pass_raises raises_to_caller 900
           (files (one_video 20 1200)) (Ext ''video.mp4'') 600 of
      (parts, fs') \<Rightarrow> map (\<lambda>p. (p, map_option file_size (fs' p))) parts)
     = [(Part 1 2, Some (16 * 1024 * 1024)), (Part 2 2, Some (16 * 1024 * 1024))]
   \<and> size_limit < 16 * 1024 * 1024
   \<and> size_limit < file_size \<lparr>file_size = 20 * 1024 * 1024, video_duration = Some 1200\<rparr>"
proof -
  have "(case split_video_by_size second_pass_raises raises_to_caller 900
           (files (one_video 20 1200)) (Ext ''video.mp4'') 600 of
      (parts, fs') \<Rightarrow> map (\<lambda>p. (p, map_option file_size (fs' p))) parts)
     = [(Part 1 2, Some (16 * 1024 * 1024)), (Part 2 2, Some (16 * 1024 * 1024))]"
    by code_simp
  then show ?thesis by (simp add: size_limit_def)
qed

lemma encode_part_split_path:
  "encode_part enc video d n i fs = Split_Again fs' p \<Longrightarrow> p = Compressed_Part (i + 1) n"
  by (cases "part_window d n i")
     (auto simp: encode_part_def Let_def split: if_splits option.splits)

lemma splits_again_iff:
  "splits_again enc video d n fs i
   \<longleftrightarrow> (\<exists>fs'. encode_part enc video d n i fs = Split_Again fs' (Compressed_Part (i + 1) n))"
proof
  assume "splits_again enc video d n fs i"
  then obtain fs' p where e: "encode_part enc video d n i fs = Split_Again fs' p"
    by (auto simp: splits_again_def split: part_outcome.splits)
  with encode_part_split_path [OF e] show
    "\<exists>fs'. encode_part enc video d n i fs = Split_Again fs' (Compressed_Part (i + 1) n)"
    by blast
next
  assume "\<exists>fs'. encode_part enc video d n i fs = Split_Again fs' (Compressed_Part (i + 1) n)"
  then show "splits_again enc video d n fs i" by (auto simp: splits_again_def)
qed

text \<open>
  C2 (as amended). \<open>split_video_by_size\<close> returns a list for every input: the nesting
  of its calls is bounded by the interpreter's stack, and each call runs a loop of
  \<open>num_chunks\<close> passes (this is the termination proof of \<open>split_task_run\<close>). It has no
  recursion-depth or minimum-chunk-duration floor of its own, and it force-accepts
  nothing:
  \<^item> the result does not depend on \<open>chunk_duration\<close>, which is never read;
  \<^item> a pass that leaves a compressed file above 15MB calls the function on that file
    whenever the stack has room for the call;
  \<^item> when the stack has no room, the compressed file is kept if the error reaches the
    caller's clause, and replaced by whatever the interrupted call returns otherwise.

  A missing or unreadable file gives no path, a file within the limit gives itself, and
  a run in which no pass leaves a compressed file above 15MB returns at most
  \<open>num_chunks\<close> paths.
\<close>

theorem split_returns_without_floor:
  "split_video_by_size write_videofile overflow stack fs video_path chunk_duration
     = split_video_by_size write_videofile overflow stack fs video_path chunk_duration'
   \<and> (fs video_path = None
        \<longrightarrow> split_video_by_size write_videofile overflow stack fs video_path chunk_duration = ([], fs))
   \<and> (\<forall>video. fs video_path = Some video \<and> video_duration video = None
        \<longrightarrow> split_video_by_size write_videofile overflow stack fs video_path chunk_duration = ([], fs))
   \<and> (\<forall>video d. fs video_path = Some video \<and> video_duration video = Some d
          \<and> file_size video \<le> size_limit
        \<longrightarrow> split_video_by_size write_videofile overflow stack fs video_path chunk_duration
              = ([video_path], fs))
   \<and> (\<forall>video d. fs video_path = Some video \<and> video_duration video = Some d
          \<and> size_limit < file_size video
          \<and> (\<forall>i < num_chunks_of (file_size video).
                 \<not> splits_again write_videofile video d (num_chunks_of (file_size video)) fs i)
        \<longrightarrow> length (fst (split_video_by_size write_videofile overflow stack fs video_path chunk_duration))
              \<le> num_chunks_of (file_size video))
   \<and> (\<forall>video d n i fs1 fs' p parts.
          i < n \<and> encode_part write_videofile video d n i fs1 = Split_Again fs' p
        \<longrightarrow> split_task_run write_videofile overflow (Suc stack)
                (Iterate video d n i chunk_duration fs1 parts)
              = (case split_video_by_size write_videofile overflow stack fs' p (chunk_duration div 2) of
                   (subparts, fs'') \<Rightarrow>
                     split_task_run write_videofile overflow (Suc stack)
                       (Iterate video d n (i + 1) chunk_duration fs'' (parts @ subparts)))
            \<and> split_task_run write_videofile overflow 0
                (Iterate video d n i chunk_duration fs1 parts)
              = (case overflow fs' p of
                   None \<Rightarrow>
                     split_task_run write_videofile overflow 0
                       (Iterate video d n (i + 1) chunk_duration fs' (parts @ [p]))
                 | Some (subparts, fs'') \<Rightarrow>
                     split_task_run write_videofile overflow 0
                       (Iterate video d n (i + 1) chunk_duration fs'' (parts @ subparts))))"
proof -
  have a: "split_video_by_size write_videofile overflow stack fs video_path chunk_duration
     = split_video_by_size write_videofile overflow stack fs video_path chunk_duration'"
    by (rule split_ignores_chunk_duration)
  have b: "fs video_path = None
        \<longrightarrow> split_video_by_size write_videofile overflow stack fs video_path chunk_duration = ([], fs)"
    by (simp add: split_missing)
  have c: "\<forall>video. fs video_path = Some video \<and> video_duration video = None
        \<longrightarrow> split_video_by_size write_videofile overflow stack fs video_path chunk_duration = ([], fs)"
    by (auto simp: split_unreadable)
  have d: "\<forall>video d. fs video_path = Some video \<and> video_duration video = Some d
          \<and> file_size video \<le> size_limit
        \<longrightarrow> split_video_by_size write_videofile overflow stack fs video_path chunk_duration
              = ([video_path], fs)"
    by (auto simp: split_small)
  have e: "\<forall>video d. fs video_path = Some video \<and> video_duration video = Some d
          \<and> size_limit < file_size video
          \<and> (\<forall>i < num_chunks_of (file_size video).
                 \<not> splits_again write_videofile video d (num_chunks_of (file_size video)) fs i)
        \<longrightarrow> length (fst (split_video_by_size write_videofile overflow stack fs video_path chunk_duration))
              \<le> num_chunks_of (file_size video)"
  proof (intro allI impI)
    fix video d
    assume h: "fs video_path = Some video \<and> video_duration video = Some d
          \<and> size_limit < file_size video
          \<and> (\<forall>i < num_chunks_of (file_size video).
                 \<not> splits_again write_videofile video d (num_chunks_of (file_size video)) fs i)"
    then have h1: "fs video_path = Some video" and h2: "video_duration video = Some d"
      and h3: "size_limit < file_size video"
      and h4: "\<forall>i < num_chunks_of (file_size video).
                 \<not> splits_again write_videofile video d (num_chunks_of (file_size video)) fs i"
      by blast+
    from split_without_split [where fs = fs and video_path = video_path and enc = write_videofile
        and ov = overflow and k = stack and cd = chunk_duration, OF h1 h2 h3 h4]
    show "length (fst (split_video_by_size write_videofile overflow stack fs video_path chunk_duration))
              \<le> num_chunks_of (file_size video)"
      by blast
  qed
  have f: "\<forall>video d n i fs1 fs' p parts.
          i < n \<and> encode_part write_videofile video d n i fs1 = Split_Again fs' p
        \<longrightarrow> split_task_run write_videofile overflow (Suc stack)
                (Iterate video d n i chunk_duration fs1 parts)
              = (case split_video_by_size write_videofile overflow stack fs' p (chunk_duration div 2) of
                   (subparts, fs'') \<Rightarrow>
                     split_task_run write_videofile overflow (Suc stack)
                       (Iterate video d n (i + 1) chunk_duration fs'' (parts @ subparts)))
            \<and> split_task_run write_videofile overflow 0
                (Iterate video d n i chunk_duration fs1 parts)
              = (case overflow fs' p of
                   None \<Rightarrow>
                     split_task_run write_videofile overflow 0
                       (Iterate video d n (i + 1) chunk_duration fs' (parts @ [p]))
                 | Some (subparts, fs'') \<Rightarrow>
                     split_task_run write_videofile overflow 0
                       (Iterate video d n (i + 1) chunk_duration fs'' (parts @ subparts)))"
  proof (intro allI impI conjI)
    fix video d n i fs1 fs' p parts
    assume h: "i < n \<and> encode_part write_videofile video d n i fs1 = Split_Again fs' p"
    then have lt: "i < n" and ep: "encode_part write_videofile video d n i fs1 = Split_Again fs' p"
      by blast+
    show "split_task_run write_videofile overflow (Suc stack)
                (Iterate video d n i chunk_duration fs1 parts)
              = (case split_video_by_size write_videofile overflow stack fs' p (chunk_duration div 2) of
                   (subparts, fs'') \<Rightarrow>
                     split_task_run write_videofile overflow (Suc stack)
                       (Iterate video d n (i + 1) chunk_duration fs'' (parts @ subparts)))"
      using lt ep by (rule iterate_split_nested)
    show "split_task_run write_videofile overflow 0
                (Iterate video d n i chunk_duration fs1 parts)
              = (case overflow fs' p of
                   None \<Rightarrow>
                     split_task_run write_videofile overflow 0
                       (Iterate video d n (i + 1) chunk_duration fs' (parts @ [p]))
                 | Some (subparts, fs'') \<Rightarrow>
                     split_task_run write_videofile overflow 0
                       (Iterate video d n (i + 1) chunk_duration fs'' (parts @ subparts)))"
      using lt ep by (rule iterate_split_overflow)
  qed
  from a b c d e f show ?thesis by (intro conjI)
qed

theorem split_returns_without_floor_witness:
  "split_video_by_size constant_rate raises_to_caller 899 (files (one_video 20 800)) (Ext ''video.mp4'') 0
     = split_video_by_size constant_rate raises_to_caller 899 (files (one_video 20 800)) (Ext ''video.mp4'') 600
   \<and> files (one_video 20 400) (Ext ''video.mp4'') = Some \<lparr>file_size = 20 * 1024 * 1024, video_duration = Some 400\<rparr>
   \<and> size_limit < 20 * 1024 * 1024
   \<and> num_chunks_of (20 * 1024 * 1024) = 2
   \<and> list_all (\<lambda>i. \<not> splits_again constant_rate \<lparr>file_size = 20 * 1024 * 1024, video_duration = Some 400\<rparr>
                       400 2 (files (one_video 20 400)) i) [0, 1]
   \<and> length (fst (split_video_by_size constant_rate raises_to_caller 899
                     (files (one_video 20 400)) (Ext ''video.mp4'') 600)) \<le> 2
   \<and> (\<exists>fs'. encode_part constant_rate \<lparr>file_size = 20 * 1024 * 1024, video_duration = Some 800\<rparr> 800 2 0
               (files (one_video 20 800)) = Split_Again fs' (Compressed_Part 1 2)
          \<and> split_task_run constant_rate raises_to_caller 900
               (Iterate \<lparr>file_size = 20 * 1024 * 1024, video_duration = Some 800\<rparr> 800 2 0 600
                  (files (one_video 20 800)) [])
             = (case split_video_by_size constant_rate raises_to_caller 899 fs' (Compressed_Part 1 2) 300 of
                  (subparts, fs'') \<Rightarrow>
                    split_task_run constant_rate raises_to_caller 900
                      (Iterate \<lparr>file_size = 20 * 1024 * 1024, video_duration = Some 800\<rparr> 800 2 1 600
                         fs'' subparts)))"
proof -
  let ?v4 = "\<lparr>file_size = 20 * 1024 * 1024, video_duration = Some (400::rat)\<rparr>"
  let ?v8 = "\<lparr>file_size = 20 * 1024 * 1024, video_duration = Some (800::rat)\<rparr>"
  have h1: "files (one_video 20 400) (Ext ''video.mp4'') = Some ?v4"
    by (simp add: one_video_def)
  have h3: "size_limit < file_size ?v4" by (simp add: size_limit_def)
  have n: "num_chunks_of (20 * 1024 * 1024) = 2" by code_simp
  have s0: "\<not> splits_again constant_rate ?v4 400 2 (files (one_video 20 400)) 0" by code_simp
  have s1: "\<not> splits_again constant_rate ?v4 400 2 (files (one_video 20 400)) 1" by code_simp
  have h4: "\<forall>i < num_chunks_of (file_size ?v4).
      \<not> splits_again constant_rate ?v4 400 (num_chunks_of (file_size ?v4)) (files (one_video 20 400)) i"
    using s0 s1 n by (auto simp: less_2_cases_iff)
  have "splits_again constant_rate ?v8 800 2 (files (one_video 20 800)) 0" by code_simp
  then obtain fs' where
    ep: "encode_part constant_rate ?v8 800 2 0 (files (one_video 20 800)) = Split_Again fs' (Compressed_Part 1 2)"
    unfolding splits_again_iff by (auto simp del: One_nat_def)
  have lt: "(0::nat) < 2" by simp
  note a = split_returns_without_floor [where write_videofile = constant_rate and overflow = raises_to_caller
      and stack = 899 and fs = "files (one_video 20 800)" and video_path = "Ext ''video.mp4''"
      and chunk_duration = 0 and chunk_duration' = 600, THEN conjunct1]
  note e = split_returns_without_floor [where write_videofile = constant_rate and overflow = raises_to_caller
      and stack = 899 and fs = "files (one_video 20 400)" and video_path = "Ext ''video.mp4''"
      and chunk_duration = 600,
      THEN conjunct2, THEN conjunct2, THEN conjunct2, THEN conjunct2, THEN conjunct1, rule_format,
      of ?v4 400]
  have b: "length (fst (split_video_by_size constant_rate raises_to_caller 899
                     (files (one_video 20 400)) (Ext ''video.mp4'') 600)) \<le> 2"
  proof -
    have "fs0 = Some ?v4 \<and> video_duration ?v4 = Some 400 \<and> size_limit < file_size ?v4
        \<and> (\<forall>i < num_chunks_of (file_size ?v4).
              \<not> splits_again constant_rate ?v4 400 (num_chunks_of (file_size ?v4)) (files (one_video 20 400)) i)"
      if "fs0 = Some ?v4" for fs0
      using that h3 h4 by simp
    from e [OF this [OF h1]] n show ?thesis by simp
  qed
  note f = split_returns_without_floor [where write_videofile = constant_rate and overflow = raises_to_caller
      and stack = 899 and chunk_duration = 600,
      THEN conjunct2, THEN conjunct2, THEN conjunct2, THEN conjunct2, THEN conjunct2, rule_format,
      OF conjI [OF lt ep], THEN conjunct1, of "[]"]
  from f have c: "split_task_run constant_rate raises_to_caller 900
               (Iterate ?v8 800 2 0 600 (files (one_video 20 800)) [])
             = (case split_video_by_size constant_rate raises_to_caller 899 fs' (Compressed_Part 1 2) 300 of
                  (subparts, fs'') \<Rightarrow>
                    split_task_run constant_rate raises_to_caller 900
                      (Iterate ?v8 800 2 1 600 fs'' subparts))"
    by simp
  have d: "\<exists>fs'. encode_part constant_rate ?v8 800 2 0 (files (one_video 20 800))
                 = Split_Again fs' (Compressed_Part 1 2)
          \<and> split_task_run constant_rate raises_to_caller 900
               (Iterate ?v8 800 2 0 600 (files (one_video 20 800)) [])
             = (case split_video_by_size constant_rate raises_to_caller 899 fs' (Compressed_Part 1 2) 300 of
                  (subparts, fs'') \<Rightarrow>
                    split_task_run constant_rate raises_to_caller 900
                      (Iterate ?v8 800 2 1 600 fs'' subparts))"
    using ep c by blast
  from a h1 h3 n s0 s1 b d show ?thesis by simp
qed

text \<open>
  C2 fails as stated: there is no floor. A 20MB video of 800 seconds is cut in two
  windows of 400 seconds, and a second pass of 50000 bytes per second leaves a
  compressed file of 20000000 bytes for each. Called with \<open>chunk_duration = 0\<close>, the
  function calls itself on both files all the same (each nested call returns two
  paths). Called where the stack has no room for a nested call, it attempts the call
  all the same: when the called function catches the error and returns \<open>[]\<close>, both
  segments are dropped and the result is \<open>[]\<close>; when the error reaches the caller, the
  two files are returned at 20000000 bytes.
\<close>

theorem split_recurses_past_any_floor:
  "fst (split_video_by_size constant_rate raises_to_caller 900 (files (one_video 20 800)) (Ext ''video.mp4'') 0)
     = [Compressed_Part 1 2, Compressed_Part 2 2, Compressed_Part 1 2, Compressed_Part 2 2]
   \<and> splits_again constant_rate \<lparr>file_size = 20 * 1024 * 1024, video_duration = Some 800\<rparr> 800 2
        (files (one_video 20 800)) 0
   \<and> constant_rate Second_Pass \<lparr>file_size = 20 * 1024 * 1024, video_duration = Some 800\<rparr> 0 400
       = Written \<lparr>file_size = 20000000, video_duration = Some 400\<rparr>
   \<and> size_limit < 20000000
   \<and> fst (split_video_by_size constant_rate returns_nothing 0 (files (one_video 20 800)) (Ext ''video.mp4'') 600)
       = []
   \<and> (case split_video_by_size constant_rate raises_to_caller 0
              (files (one_video 20 800)) (Ext ''video.mp4'') 600 of
         (parts, fs') \<Rightarrow> map (\<lambda>p. (p, map_option file_size (fs' p))) parts)
       = [(Compressed_Part 1 2, Some 20000000), (Compressed_Part 2 2, Some 20000000)]"
  by code_simp

section \<open>Properties of the retry loops\<close>










section \<open>Properties of the orchestrator\<close>

text \<open>
  C9 (as amended). For a file of at most 25MB whose duration is at most 600 seconds,
  \<open>process_video\<close> makes exactly one transcription request, for the whole file, and
  writes no part; the only change to the files is the removal of the video at the end.
\<close>

theorem small_short_file_transcribed_in_one_call:
  assumes "files w video_path = Some f" and "file_size f \<le> MAX_FILE_SIZE"
    and "video_duration f = Some d" and "d \<le> 600"
  shows "process_video write_videofile overflow stack create w video_path
     = (case create (trace w) f of
          Returned transcript \<Rightarrow> Inr transcript
        | Raised e \<Rightarrow> Inl (Transcription_Raised e),
        [],
        \<lparr>files = (files w)(video_path := None), trace = trace w @ [Transcribe_Call video_path]\<rparr>)"
  using assms
  by (simp add: process_video_def transcribe_audio_def transcribe_file_def remove_if_exists_def
      Let_def split: response.splits)

theorem small_short_file_transcribed_in_one_call_witness:
  "files (one_video 20 600) (Ext ''video.mp4'') = Some \<lparr>file_size = 20 * 1024 * 1024, video_duration = Some 600\<rparr>
   \<and> 20 * 1024 * 1024 \<le> MAX_FILE_SIZE
   \<and> (600::rat) \<le> 600
   \<and> process_video writes_5mb raises_to_caller 900 answers (one_video 20 600) (Ext ''video.mp4'')
     = (Inr ''hello'', [],
        \<lparr>files = (files (one_video 20 600))(Ext ''video.mp4'' := None),
           trace = [Transcribe_Call (Ext ''video.mp4'')]\<rparr>)"
proof -
  let ?f = "\<lparr>file_size = 20 * 1024 * 1024, video_duration = Some (600::rat)\<rparr>"
  have h1: "files (one_video 20 600) (Ext ''video.mp4'') = Some ?f"
    by (simp add: one_video_def)
  have h2: "file_size ?f \<le> MAX_FILE_SIZE" by (simp add: MAX_FILE_SIZE_def)
  have h3: "video_duration ?f = Some 600" by simp
  have h4: "(600::rat) \<le> 600" by simp
  from small_short_file_transcribed_in_one_call
    [where w = "one_video 20 600" and video_path = "Ext ''video.mp4''" and create = answers
       and write_videofile = writes_5mb and overflow = raises_to_caller and stack = 900,
     OF h1 h2 h3 h4]
  have "process_video writes_5mb raises_to_caller 900 answers (one_video 20 600) (Ext ''video.mp4'')
     = (Inr ''hello'', [],
        \<lparr>files = (files (one_video 20 600))(Ext ''video.mp4'' := None),
           trace = [Transcribe_Call (Ext ''video.mp4'')]\<rparr>)"
    by (simp add: answers_def one_video_def)
  with h1 h2 h4 show ?thesis by simp
qed

text \<open>
  C9 fails as stated: a 20MB video of 1200 seconds is below the 25MB limit, and
  \<open>process_video\<close> hands it to \<open>transcribe_audio\<close>, which splits it in two parts and
  makes two transcription requests.
\<close>

theorem small_long_file_is_split:
  "(case process_video writes_5mb raises_to_caller 900 answers (one_video 20 1200) (Ext ''video.mp4'') of
      (r, results, w') \<Rightarrow> (r, trace w'))
     = (Inr ''hello hello'', [Transcribe_Call (Part 1 2), Transcribe_Call (Part 2 2)])
   \<and> file_size \<lparr>file_size = 20 * 1024 * 1024, video_duration = Some 1200\<rparr> \<le> MAX_FILE_SIZE"
  by code_simp

text \<open>
  C7, at a failing input. A 20MB video of 1200 seconds is split in two 5MB parts. The
  request for the second part raises a token-limit error; \<open>transcribe_audio\<close> calls
  \<open>split_video_by_size\<close> on that part with the halved \<open>chunk_duration\<close>, which does not
  read it and returns the part itself, since it is below 15MB; the same file is
  requested again, and its second failure is recorded as the marker of part 2.1.
  No smaller piece is made: a call of \<open>split_video_by_size\<close> with the halved
  \<open>chunk_duration\<close> is the call with the whole one.
\<close>

theorem token_limit_resplit_returns_same_chunk:
  "(case transcribe_audio writes_5mb raises_to_caller 900 token_limit_after_first (one_video 20 1200)
           (Ext ''video.mp4'') of
      (r, w') \<Rightarrow> (r, trace w'))
     = (Returned (''hello '' @ subpart_error 2 1),
        [Transcribe_Call (Part 1 2), Transcribe_Call (Part 2 2), Transcribe_Call (Part 2 2)])
   \<and> fst (split_video_by_size writes_5mb raises_to_caller 900
            (Map.empty(Part 2 2 \<mapsto> \<lparr>file_size = 5 * 1024 * 1024, video_duration = Some 600\<rparr>))
            (Part 2 2) (600 div 2))
     = [Part 2 2]
   \<and> split_video_by_size writes_5mb raises_to_caller 900 (files (one_video 20 1200)) (Ext ''video.mp4'') (600 div 2)
     = split_video_by_size writes_5mb raises_to_caller 900 (files (one_video 20 1200)) (Ext ''video.mp4'') 600"
proof -
  have "(case transcribe_audio writes_5mb raises_to_caller 900 token_limit_after_first (one_video 20 1200)
           (Ext ''video.mp4'') of
      (r, w') \<Rightarrow> (r, trace w'))
     = (Returned (''hello '' @ subpart_error 2 1),
        [Transcribe_Call (Part 1 2), Transcribe_Call (Part 2 2), Transcribe_Call (Part 2 2)])"
    by code_simp
  moreover have "fst (split_video_by_size writes_5mb raises_to_caller 900
            (Map.empty(Part 2 2 \<mapsto> \<lparr>file_size = 5 * 1024 * 1024, video_duration = Some 600\<rparr>))
            (Part 2 2) (600 div 2))
     = [Part 2 2]"
    by code_simp
  ultimately show ?thesis
    using split_ignores_chunk_duration
      [of writes_5mb raises_to_caller 900 "files (one_video 20 1200)" "Ext ''video.mp4''" "600 div 2" 600]
    by blast
qed

lemma failure_marker_startswith: "startswith failure_marker '' [Falha''"
  by (simp add: failure_marker_def startswith_def)

lemma transcribe_part_result:
  assumes "transcribe_part enc ov k create video_path part (ts, rs, w) = (ts', rs', w')"
  shows "\<exists>x. rs' = rs @ [x] \<and> ts' = ts @ entries x"
proof (cases "files w part")
  case None
  with assms have "rs' = rs @ [Part_Missing] \<and> ts' = ts @ entries Part_Missing"
    by (simp add: transcribe_part_def)
  then show ?thesis by blast
next
  case (Some f)
  obtain r w1 where t: "transcribe_audio enc ov k create w part = (r, w1)"
    by (cases "transcribe_audio enc ov k create w part")
  show ?thesis
  proof (cases r)
    case (Returned transcript)
    with assms Some t
    have "rs' = rs @ [Part_Transcribed transcript] \<and> ts' = ts @ entries (Part_Transcribed transcript)"
      by (simp add: transcribe_part_def Let_def)
    then show ?thesis by blast
  next
    case (Raised e)
    with assms Some t have "rs' = rs @ [Part_Failed e] \<and> ts' = ts @ entries (Part_Failed e)"
      by (simp add: transcribe_part_def Let_def)
    then show ?thesis by blast
  qed
qed

lemma transcribe_parts_results:
  "transcribe_parts enc ov k create video_path parts (ts, rs, w) = (ts', rs', w') \<Longrightarrow>
   \<exists>new. length new = length parts \<and> rs' = rs @ new \<and> ts' = ts @ concat (map entries new)"
proof (induction parts arbitrary: ts rs w)
  case Nil
  then show ?case by simp
next
  case (Cons part rest)
  obtain ts1 rs1 w1 where
    s: "transcribe_part enc ov k create video_path part (ts, rs, w) = (ts1, rs1, w1)"
    by (metis prod_cases3)
  with Cons.prems have
    r: "transcribe_parts enc ov k create video_path rest (ts1, rs1, w1) = (ts', rs', w')"
    by simp
  from transcribe_part_result [OF s] obtain x where x: "rs1 = rs @ [x]" "ts1 = ts @ entries x"
    by blast
  from Cons.IH [OF r] obtain new where
    n: "length new = length rest" "rs' = rs1 @ new" "ts' = ts1 @ concat (map entries new)"
    by blast
  from x n have "length (x # new) = length (part # rest) \<and> rs' = rs @ (x # new)
      \<and> ts' = ts @ concat (map entries (x # new))"
    by simp
  then show ?case by blast
qed

lemma some_transcript_iff:
  "list_ex (\<lambda>t. \<not> startswith t '' [Falha'') (concat (map entries results))
   \<longleftrightarrow> (\<exists>t. Part_Transcribed t \<in> set results \<and> \<not> startswith t '' [Falha'')"
proof (induction results)
  case Nil
  then show ?case by simp
next
  case (Cons r results)
  then show ?case
    by (cases r) (auto simp: failure_marker_startswith)
qed

text \<open>
  What \<open>process_video\<close> does for a file above 25MB that was split into parts: it raises
  the total-loss error exactly when no entry of \<open>all_transcripts\<close> fails to begin with
  \<open>" [Falha"\<close>, that is, when no part was answered with a text that does not begin
  so; otherwise it returns the merged transcript, with the marker in the place of
  every part whose transcription raised.
\<close>

lemma process_video_total_loss_iff:
  assumes "files w video_path = Some f" and "MAX_FILE_SIZE < file_size f"
    and "split_video_by_size write_videofile overflow stack (files w) video_path 600 = (parts, fs')"
    and "parts \<noteq> []"
    and "transcribe_parts write_videofile overflow (stack - 1) create video_path parts
           ([], [], w\<lparr>files := fs'\<rparr>)
           = (all_transcripts, results, w1)"
  shows "length results = length parts
       \<and> all_transcripts = concat (map entries results)
       \<and> process_video write_videofile overflow stack create w video_path
           = (if \<exists>t. Part_Transcribed t \<in> set results \<and> \<not> startswith t '' [Falha''
              then Inr (join '' '' all_transcripts) else Inl Total_Loss,
              results, remove_if_exists w1 video_path)"
proof -
  from transcribe_parts_results [OF assms(5)]
  have len: "length results = length parts"
    and ent: "all_transcripts = concat (map entries results)"
    by auto
  let ?some = "\<exists>t. Part_Transcribed t \<in> set results \<and> \<not> startswith t '' [Falha''"
  have ex: "list_ex (\<lambda>t. \<not> startswith t '' [Falha'') all_transcripts \<longleftrightarrow> ?some"
    unfolding ent by (rule some_transcript_iff)
  have pv: "process_video write_videofile overflow stack create w video_path
      = (if ?some then Inr (join '' '' all_transcripts) else Inl Total_Loss,
         results, remove_if_exists w1 video_path)"
    using assms(1,2,3,4,5) ex by (simp add: process_video_def)
  from len ent pv show ?thesis by blast
qed

text \<open>
  C3, at a failing input. A 30MB video of 1200 seconds is split in two 5MB parts, and
  the service answers both requests, each time with a text that begins with
  \<open>" [Falha"\<close>. Both transcriptions succeeded (nothing was raised, both texts are in
  \<open>all_transcripts\<close>), but the check \<open>not t.startswith(" [Falha")\<close> takes both texts
  for failure markers, and \<open>process_video\<close> raises the total-loss error. With an answer
  that does not begin so for one of the parts, the merged transcript is produced, the
  marker standing for the part that failed.
\<close>

theorem total_loss_raised_though_every_part_transcribed:
  "(case process_video writes_5mb raises_to_caller 900 answers_falha (one_video 30 1200) (Ext ''video.mp4'') of
      (r, results, w') \<Rightarrow> (r, results, trace w'))
     = (Inl Total_Loss,
        [Part_Transcribed '' [Falha de energia] voltamos'', Part_Transcribed '' [Falha de energia] voltamos''],
        [Transcribe_Call (Part 1 2), Transcribe_Call (Part 2 2)])
   \<and> answers_falha [] \<lparr>file_size = 5 * 1024 * 1024, video_duration = Some 600\<rparr>
       = Returned '' [Falha de energia] voltamos''
   \<and> MAX_FILE_SIZE < 30 * 1024 * 1024
   \<and> (case process_video writes_5mb raises_to_caller 900 fails_once (one_video 30 1200) (Ext ''video.mp4'') of
         (r, results, w') \<Rightarrow> (r, results))
       = (Inr (failure_marker @ '' hello''),
          [Part_Failed ''Connection timed out'', Part_Transcribed ''hello''])"
  by code_simp

end
